theory Spec2Isabelle
  imports Main "HOL-Library.Word"
begin

unbundle bit_operations_syntax

section \<open>The V4L2 capture test program (src/hack/v4l2-test.cpp)\<close>

text \<open>
  The program talks to the kernel through \<^verbatim>\<open>stat\<close>, \<^verbatim>\<open>open\<close>, \<^verbatim>\<open>ioctl\<close>, \<^verbatim>\<open>mmap\<close>,
  \<^verbatim>\<open>munmap\<close>, \<^verbatim>\<open>close\<close> and \<^verbatim>\<open>select\<close>. The kernel is not part of the program, so
  the model runs the program against a script: the list of replies the kernel will give,
  one per system call, in the order the calls are made. Every system call takes the next
  reply off the script, stores its \<^verbatim>\<open>errno\<close> and appends itself (with the reply) to a
  trace. A program that asks for a reply when the script is empty has not finished: its
  value is \<open>None\<close>. Exceptions and aborts are the left injection of a sum.
\<close>

subsection \<open>Data\<close>

type_synonym u8 = "8 word"
type_synonym u16 = "16 word"
type_synonym u32 = "32 word"

text \<open>The members of the kernel structures that the program reads or writes.\<close>

record v4l2_rect =
  rect_left :: u32
  rect_top :: u32
  rect_width :: u32
  rect_height :: u32

record v4l2_pix_format =
  pix_width :: u32
  pix_height :: u32
  pix_pixelformat :: u32
  pix_field :: u32
  pix_bytesperline :: u32
  pix_sizeimage :: u32

record v4l2_requestbuffers =
  req_count :: u32
  req_type :: u32
  req_memory :: u32

record v4l2_buffer =
  buf_index :: u32
  buf_type :: u32
  buf_bytesused :: u32
  buf_memory :: u32
  buf_offset :: u32
  buf_length :: u32

text \<open>\<^verbatim>\<open>struct buffer { void * start; size_t length; }\<close>\<close>

record buffer =
  start :: nat
  length_b :: nat

text \<open>The members of \<^verbatim>\<open>class subdevice\<close>.\<close>

record subdevice =
  dev_name :: string
  fd :: int
  buffers :: "buffer list"

datatype request =
  VIDIOC_QUERYCAP | VIDIOC_CROPCAP | VIDIOC_S_CROP | VIDIOC_S_FMT | VIDIOC_G_FMT
| VIDIOC_REQBUFS | VIDIOC_QUERYBUF | VIDIOC_QBUF | VIDIOC_DQBUF
| VIDIOC_STREAMON | VIDIOC_STREAMOFF

text \<open>The third argument of \<^verbatim>\<open>ioctl\<close>, as the caller filled it in.\<close>

datatype ioctl_arg =
  Arg_capability
| Arg_cropcap u32
| Arg_crop u32 v4l2_rect
| Arg_format u32 v4l2_pix_format
| Arg_requestbuffers v4l2_requestbuffers
| Arg_buffer v4l2_buffer
| Arg_buf_type u32

text \<open>
  A system call with its arguments: \<open>Open path flags\<close>, \<open>Mmap length prot flags fd offset\<close>,
  \<open>Munmap start length\<close>, and \<open>Select nfds readfds tv_sec tv_usec\<close> (the other two
  descriptor sets are \<^verbatim>\<open>NULL\<close>).
\<close>

datatype call =
  Stat string
| Open string u32
| Ioctl int request ioctl_arg
| Mmap nat u32 u32 int nat
| Munmap nat nat
| Close int
| Select int "int list" nat nat

text \<open>
  What one system call hands back: the returned integer, the \<^verbatim>\<open>errno\<close> it leaves, and
  the values of the out-parameters that the program reads (\<^verbatim>\<open>st.st_mode\<close>,
  \<^verbatim>\<open>cap.capabilities\<close>, \<^verbatim>\<open>cropcap.defrect\<close>, \<^verbatim>\<open>fmt.fmt.pix\<close>, \<^verbatim>\<open>req.count\<close>, the
  \<^verbatim>\<open>v4l2_buffer\<close>, and the address \<^verbatim>\<open>mmap\<close> returns). A call reads only its own
  members. Two assumptions about the kernel are built in: a failed \<^verbatim>\<open>ioctl\<close> leaves the
  caller's structure as it was, and \<^verbatim>\<open>errno\<close> is whatever the last call left (the
  program reads it only after a call that failed).
\<close>

record reply =
  ret :: int
  err :: int
  o_mode :: u32
  o_caps :: u32
  o_defrect :: v4l2_rect
  o_pix :: v4l2_pix_format
  o_count :: u32
  o_buf :: v4l2_buffer
  o_addr :: nat

datatype event =
  Sys call reply
| Callback nat nat
| Stderr string

record world =
  replies :: "reply list"
  errno :: int
  trace :: "event list"

datatype error =
  Runtime_error string
| Assertion_failed
| Out_of_bounds

definition EINTR :: int where "EINTR = 4"
definition EAGAIN :: int where "EAGAIN = 11"
definition EINVAL :: int where "EINVAL = 22"

definition V4L2_BUF_TYPE_VIDEO_CAPTURE :: u32 where "V4L2_BUF_TYPE_VIDEO_CAPTURE = 1"
definition V4L2_MEMORY_MMAP :: u32 where "V4L2_MEMORY_MMAP = 1"

subsection \<open>System calls and \<^verbatim>\<open>xioctl\<close>\<close>

definition sys :: "call \<Rightarrow> world \<Rightarrow> (reply \<times> world) option" where
  "sys c w =
     (case replies w of
        [] \<Rightarrow> None
      | rp # rest \<Rightarrow>
          Some (rp, w\<lparr>replies := rest, errno := err rp, trace := trace w @ [Sys c rp]\<rparr>))"

definition emit :: "event \<Rightarrow> world \<Rightarrow> world" where
  "emit e w = w\<lparr>trace := trace w @ [e]\<rparr>"

lemma sys_shorter:
  "sys c w = Some (rp, w') \<Longrightarrow> length (replies w') < length (replies w)"
  by (auto simp: sys_def split: list.splits)

text \<open>
  \<^verbatim>\<open>do { r = ioctl(fh, request, arg); } while (r < 0 && errno == EINTR); return r;\<close>
  The result is the reply of the last \<^verbatim>\<open>ioctl\<close>: \<open>ret\<close> of it is \<^verbatim>\<open>r\<close>.
\<close>

function xioctl :: "int \<Rightarrow> request \<Rightarrow> ioctl_arg \<Rightarrow> world \<Rightarrow> (reply \<times> world) option" where
  "xioctl fh rq arg w =
     (case sys (Ioctl fh rq arg) w of
        None \<Rightarrow> None
      | Some (rp, w') \<Rightarrow>
          if ret rp < 0 \<and> errno w' = EINTR then xioctl fh rq arg w' else Some (rp, w'))"
  by pat_completeness auto
termination
  by (relation "measure (\<lambda>(fh, rq, arg, w). length (replies w))") (auto dest: sys_shorter)

declare xioctl.simps [simp del]

lemma xioctl_shorter:
  "xioctl fh rq arg w = Some (rp, w') \<Longrightarrow> length (replies w') < length (replies w)"
proof (induction fh rq arg w rule: xioctl.induct)
  case (1 fh rq arg w)
  from "1.prems" obtain r1 w1 where s: "sys (Ioctl fh rq arg) w = Some (r1, w1)"
    by (auto simp: xioctl.simps [of fh rq arg w] split: option.splits)
  show ?case
  proof (cases "ret r1 < 0 \<and> errno w1 = EINTR")
    case True
    with s "1.prems" have "xioctl fh rq arg w1 = Some (rp, w')"
      by (simp add: xioctl.simps [of fh rq arg w])
    with "1.IH" [OF s refl True] have "length (replies w') < length (replies w1)" by simp
    with sys_shorter [OF s] show ?thesis by simp
  next
    case False
    with s "1.prems" have "w' = w1"
      by (auto simp: xioctl.simps [of fh rq arg w])
    with sys_shorter [OF s] show ?thesis by simp
  qed
qed

text \<open>A reply that reports a call cut short by a signal.\<close>

definition interrupted :: "reply \<Rightarrow> bool" where
  "interrupted rp \<longleftrightarrow> ret rp < 0 \<and> err rp = EINTR"

text \<open>\<^verbatim>\<open>v4l2_buffer buf = {}; buf.type = ...; buf.memory = ...;\<close> with \<^verbatim>\<open>buf.index = i\<close>.\<close>

definition capture_buffer :: "u32 \<Rightarrow> v4l2_buffer" where
  "capture_buffer i =
     \<lparr>buf_index = i, buf_type = V4L2_BUF_TYPE_VIDEO_CAPTURE, buf_bytesused = 0,
      buf_memory = V4L2_MEMORY_MMAP, buf_offset = 0, buf_length = 0\<rparr>"

subsection \<open>The constructor \<^verbatim>\<open>subdevice::subdevice\<close>\<close>

text \<open>
  A step of the constructor takes the world and gives an exception or a value, with the
  world after it. \<^verbatim>\<open>throw std::runtime_error(s)\<close> and \<^verbatim>\<open>throw_error(s)\<close> both throw a
  \<^verbatim>\<open>runtime_error\<close> whose text is \<^verbatim>\<open>s\<close>. An exception that leaves the constructor ends it
  there: the destructor of the object under construction is not run.
\<close>

type_synonym 'a io = "world \<Rightarrow> ((error + 'a) \<times> world) option"

definition io_bind :: "'a io \<Rightarrow> ('a \<Rightarrow> 'b io) \<Rightarrow> 'b io" where
  "io_bind m k w =
     (case m w of
        None \<Rightarrow> None
      | Some (Inl e, w') \<Rightarrow> Some (Inl e, w')
      | Some (Inr x, w') \<Rightarrow> k x w')"

definition io_return :: "'a \<Rightarrow> 'a io" where
  "io_return x w = Some (Inr x, w)"

definition io_throw :: "string \<Rightarrow> 'a io" where
  "io_throw s w = Some (Inl (Runtime_error s), w)"

text \<open>Constants of the system headers.\<close>

definition S_ISCHR :: "u32 \<Rightarrow> bool" where
  "S_ISCHR m \<longleftrightarrow> m AND 0xF000 = 0x2000"

definition V4L2_CAP_VIDEO_CAPTURE :: u32 where "V4L2_CAP_VIDEO_CAPTURE = 0x00000001"
definition V4L2_CAP_STREAMING :: u32 where "V4L2_CAP_STREAMING = 0x04000000"
definition V4L2_PIX_FMT_YUYV :: u32 where "V4L2_PIX_FMT_YUYV = 0x56595559"
definition V4L2_FIELD_INTERLACED :: u32 where "V4L2_FIELD_INTERLACED = 4"
definition MAP_FAILED :: nat where "MAP_FAILED = 2 ^ 64 - 1"
definition O_RDWR :: u32 where "O_RDWR = 2"
definition O_NONBLOCK :: u32 where "O_NONBLOCK = 2048"
definition PROT_READ :: u32 where "PROT_READ = 1"
definition PROT_WRITE :: u32 where "PROT_WRITE = 2"
definition MAP_SHARED :: u32 where "MAP_SHARED = 1"

text \<open>
  Lines 55 to 71: \<^verbatim>\<open>stat\<close>, the test for a character device, \<^verbatim>\<open>open\<close>. The value is the
  file descriptor.
\<close>

definition open_device :: "string \<Rightarrow> int io" where
  "open_device name w =
     (case sys (Stat name) w of
        None \<Rightarrow> None
      | Some (st, w1) \<Rightarrow>
          if ret st < 0 then io_throw ''bad'' (emit (Stderr ''Cannot identify'') w1)
          else if \<not> S_ISCHR (o_mode st) then io_throw (name @ '' is no device'') w1
          else
            (case sys (Open name (O_RDWR OR O_NONBLOCK)) w1 of
               None \<Rightarrow> None
             | Some (op, w2) \<Rightarrow>
                 if ret op < 0 then io_throw ''bad'' (emit (Stderr ''Cannot open'') w2)
                 else io_return (ret op) w2))"

text \<open>Lines 73 to 81: \<^verbatim>\<open>VIDIOC_QUERYCAP\<close> and the two capability tests.\<close>

definition query_capabilities :: "string \<Rightarrow> int \<Rightarrow> unit io" where
  "query_capabilities name fh w =
     (case xioctl fh VIDIOC_QUERYCAP Arg_capability w of
        None \<Rightarrow> None
      | Some (cap, w1) \<Rightarrow>
          if ret cap < 0 then
            (if errno w1 = EINVAL then io_throw (name @ '' is no V4L2 device'') w1
             else io_throw ''VIDIOC_QUERYCAP'' w1)
          else if o_caps cap AND V4L2_CAP_VIDEO_CAPTURE = 0 then
            io_throw (name @ '' is no video capture device'') w1
          else if o_caps cap AND V4L2_CAP_STREAMING = 0 then
            io_throw (name @ '' does not support streaming I/O'') w1
          else io_return () w1)"

text \<open>
  Lines 84 to 99: \<^verbatim>\<open>VIDIOC_CROPCAP\<close>, and \<^verbatim>\<open>VIDIOC_S_CROP\<close> with the default rectangle when
  the first returned 0. Errors are ignored.
\<close>

definition reset_crop :: "int \<Rightarrow> unit io" where
  "reset_crop fh w =
     (case xioctl fh VIDIOC_CROPCAP (Arg_cropcap V4L2_BUF_TYPE_VIDEO_CAPTURE) w of
        None \<Rightarrow> None
      | Some (cropcap, w1) \<Rightarrow>
          if ret cropcap = 0 then
            (case xioctl fh VIDIOC_S_CROP
                    (Arg_crop V4L2_BUF_TYPE_VIDEO_CAPTURE (o_defrect cropcap)) w1 of
               None \<Rightarrow> None
             | Some (crop, w2) \<Rightarrow> io_return () w2)
          else io_return () w1)"

text \<open>
  Lines 101 to 116: \<^verbatim>\<open>VIDIOC_S_FMT\<close> with 640 x 480 YUYV interlaced when the format is
  forced, \<^verbatim>\<open>VIDIOC_G_FMT\<close> otherwise. The value is \<^verbatim>\<open>fmt.fmt.pix\<close> as the kernel set it.
\<close>

definition forced_format :: v4l2_pix_format where
  "forced_format =
     \<lparr>pix_width = 640, pix_height = 480, pix_pixelformat = V4L2_PIX_FMT_YUYV,
      pix_field = V4L2_FIELD_INTERLACED, pix_bytesperline = 0, pix_sizeimage = 0\<rparr>"

definition zero_format :: v4l2_pix_format where
  "zero_format =
     \<lparr>pix_width = 0, pix_height = 0, pix_pixelformat = 0, pix_field = 0,
      pix_bytesperline = 0, pix_sizeimage = 0\<rparr>"

definition negotiate_format :: "int \<Rightarrow> bool \<Rightarrow> v4l2_pix_format io" where
  "negotiate_format fh force_format w =
     (if force_format then
        (case xioctl fh VIDIOC_S_FMT (Arg_format V4L2_BUF_TYPE_VIDEO_CAPTURE forced_format) w of
           None \<Rightarrow> None
         | Some (fmt, w1) \<Rightarrow>
             if ret fmt < 0 then io_throw ''VIDIOC_S_FMT'' w1 else io_return (o_pix fmt) w1)
      else
        (case xioctl fh VIDIOC_G_FMT (Arg_format V4L2_BUF_TYPE_VIDEO_CAPTURE zero_format) w of
           None \<Rightarrow> None
         | Some (fmt, w1) \<Rightarrow>
             if ret fmt < 0 then io_throw ''VIDIOC_G_FMT'' w1 else io_return (o_pix fmt) w1))"

text \<open>
  Lines 118 to 122:
  \<^verbatim>\<open>unsigned int min = fmt.fmt.pix.width * 2;\<close>
  \<^verbatim>\<open>if(fmt.fmt.pix.bytesperline < min) fmt.fmt.pix.bytesperline = min;\<close>
  \<^verbatim>\<open>min = fmt.fmt.pix.bytesperline * fmt.fmt.pix.height;\<close>
  \<^verbatim>\<open>if(fmt.fmt.pix.sizeimage < min) fmt.fmt.pix.sizeimage = min;\<close>
  All operands are 32-bit unsigned, so both products wrap around.
\<close>

definition buggy_driver_paranoia :: "v4l2_pix_format \<Rightarrow> v4l2_pix_format" where
  "buggy_driver_paranoia p =
     (let min1 = pix_width p * 2;
          p1 = (if pix_bytesperline p < min1 then p\<lparr>pix_bytesperline := min1\<rparr> else p);
          min2 = pix_bytesperline p1 * pix_height p1;
          p2 = (if pix_sizeimage p1 < min2 then p1\<lparr>pix_sizeimage := min2\<rparr> else p1)
      in p2)"

text \<open>
  Lines 125 to 137: \<^verbatim>\<open>VIDIOC_REQBUFS\<close> for 4 memory-mapped buffers. The value is
  \<^verbatim>\<open>req.count\<close> as the kernel set it.
\<close>

definition four_buffers :: v4l2_requestbuffers where
  "four_buffers =
     \<lparr>req_count = 4, req_type = V4L2_BUF_TYPE_VIDEO_CAPTURE, req_memory = V4L2_MEMORY_MMAP\<rparr>"

definition request_buffers :: "string \<Rightarrow> int \<Rightarrow> u32 io" where
  "request_buffers name fh w =
     (case xioctl fh VIDIOC_REQBUFS (Arg_requestbuffers four_buffers) w of
        None \<Rightarrow> None
      | Some (req, w1) \<Rightarrow>
          if ret req < 0 then
            (if errno w1 = EINVAL then io_throw (name @ '' does not support memory mapping'') w1
             else io_throw ''VIDIOC_REQBUFS'' w1)
          else if o_count req < 2 then io_throw (''Insufficient buffer memory on '' @ name) w1
          else io_return (o_count req) w1)"

text \<open>
  Lines 139 to 155: \<^verbatim>\<open>buffers.resize(req.count)\<close>, then for each index
  \<^verbatim>\<open>VIDIOC_QUERYBUF\<close> and \<^verbatim>\<open>mmap\<close> of the length and offset it reports. The loop
  counter is a natural number here (the \<^verbatim>\<open>int\<close> of the source cannot count a pool of
  more than \<open>2 ^ 31 - 1\<close> buffers).
\<close>

function map_buffers :: "int \<Rightarrow> buffer list \<Rightarrow> nat \<Rightarrow> buffer list io" where
  "map_buffers fh bufs i w =
     (if i < length bufs then
        (case xioctl fh VIDIOC_QUERYBUF (Arg_buffer (capture_buffer (of_nat i))) w of
           None \<Rightarrow> None
         | Some (buf, w1) \<Rightarrow>
             if ret buf < 0 then io_throw ''VIDIOC_QUERYBUF'' w1
             else
               (case sys (Mmap (unat (buf_length (o_buf buf))) (PROT_READ OR PROT_WRITE) MAP_SHARED fh
                           (unat (buf_offset (o_buf buf)))) w1 of
                  None \<Rightarrow> None
                | Some (m, w2) \<Rightarrow>
                    if o_addr m = MAP_FAILED then io_throw ''mmap'' w2
                    else map_buffers fh
                           (bufs[i := \<lparr>start = o_addr m, length_b = unat (buf_length (o_buf buf))\<rparr>])
                           (i + 1) w2))
      else io_return bufs w)"
  by pat_completeness auto
termination
  by (relation "measure (\<lambda>(fh, bufs, i, w). length bufs - i)") auto

declare map_buffers.simps [simp del]

text \<open>Lines 158 to 165: \<^verbatim>\<open>VIDIOC_QBUF\<close> for each index.\<close>

function queue_buffers :: "int \<Rightarrow> nat \<Rightarrow> nat \<Rightarrow> unit io" where
  "queue_buffers fh n i w =
     (if i < n then
        (case xioctl fh VIDIOC_QBUF (Arg_buffer (capture_buffer (of_nat i))) w of
           None \<Rightarrow> None
         | Some (buf, w1) \<Rightarrow>
             if ret buf < 0 then io_throw ''VIDIOC_QBUF'' w1 else queue_buffers fh n (i + 1) w1)
      else io_return () w)"
  by pat_completeness auto
termination
  by (relation "measure (\<lambda>(fh, n, i, w). n - i)") auto

declare queue_buffers.simps [simp del]

text \<open>Lines 167 and 168.\<close>

definition stream_on :: "int \<Rightarrow> unit io" where
  "stream_on fh w =
     (case xioctl fh VIDIOC_STREAMON (Arg_buf_type V4L2_BUF_TYPE_VIDEO_CAPTURE) w of
        None \<Rightarrow> None
      | Some (r, w1) \<Rightarrow> if ret r < 0 then io_throw ''VIDIOC_STREAMON'' w1 else io_return () w1)"

text \<open>
  The constructor: \<open>negotiate\<close> is lines 55 to 122, \<open>request_buffers\<close> lines 125 to 137,
  \<open>start_streaming\<close> lines 139 to 168. The format after the defensive minimums is a local
  variable that nothing reads afterwards.
\<close>

definition start_streaming :: "string \<Rightarrow> int \<Rightarrow> u32 \<Rightarrow> subdevice io" where
  "start_streaming name fh count =
     io_bind (map_buffers fh (replicate (unat count) \<lparr>start = 0, length_b = 0\<rparr>) 0) (\<lambda>bufs.
     io_bind (queue_buffers fh (length bufs) 0) (\<lambda>_.
     io_bind (stream_on fh) (\<lambda>_.
     io_return \<lparr>dev_name = name, fd = fh, buffers = bufs\<rparr>)))"

definition negotiate :: "string \<Rightarrow> bool \<Rightarrow> (int \<times> v4l2_pix_format) io" where
  "negotiate name force_format =
     io_bind (open_device name) (\<lambda>fh.
     io_bind (query_capabilities name fh) (\<lambda>_.
     io_bind (reset_crop fh) (\<lambda>_.
     io_bind (negotiate_format fh force_format) (\<lambda>pix.
     io_return (fh, buggy_driver_paranoia pix)))))"

definition subdevice_ctor :: "string \<Rightarrow> bool \<Rightarrow> subdevice io" where
  "subdevice_ctor name force_format =
     io_bind (negotiate name force_format) (\<lambda>(fh, fmt).
     io_bind (request_buffers name fh) (\<lambda>count.
     start_streaming name fh count))"

subsection \<open>The destructor \<^verbatim>\<open>subdevice::~subdevice\<close>\<close>

text \<open>
  \<^verbatim>\<open>VIDIOC_STREAMOFF\<close>, \<^verbatim>\<open>munmap\<close> of every buffer, \<^verbatim>\<open>close\<close>. A failure is reported by
  \<^verbatim>\<open>warn_error\<close> on \<^verbatim>\<open>stderr\<close> and the destructor goes on.
\<close>

fun unmap_buffers :: "buffer list \<Rightarrow> world \<Rightarrow> world option" where
  "unmap_buffers [] w = Some w"
| "unmap_buffers (b # bs) w =
     (case sys (Munmap (start b) (length_b b)) w of
        None \<Rightarrow> None
      | Some (r, w1) \<Rightarrow>
          unmap_buffers bs (if ret r < 0 then emit (Stderr ''munmap'') w1 else w1))"

definition subdevice_dtor :: "subdevice \<Rightarrow> world \<Rightarrow> world option" where
  "subdevice_dtor sd w =
     (case xioctl (fd sd) VIDIOC_STREAMOFF (Arg_buf_type V4L2_BUF_TYPE_VIDEO_CAPTURE) w of
        None \<Rightarrow> None
      | Some (r, w1) \<Rightarrow>
          (case unmap_buffers (buffers sd)
                  (if ret r < 0 then emit (Stderr ''VIDIOC_STREAMOFF'') w1 else w1) of
             None \<Rightarrow> None
           | Some w2 \<Rightarrow>
               (case sys (Close (fd sd)) w2 of
                  None \<Rightarrow> None
                | Some (c, w3) \<Rightarrow> Some (if ret c < 0 then emit (Stderr ''close'') w3 else w3))))"

subsection \<open>\<^verbatim>\<open>subdevice::poll\<close>\<close>

text \<open>
  One call of \<^verbatim>\<open>poll(f)\<close>. The callback \<open>f\<close> gets the start address of the dequeued
  buffer and \<^verbatim>\<open>buf.bytesused\<close>, and works on the state \<open>s\<close> of the caller (what the
  lambda captured by reference); a callback that runs into undefined behaviour ends the
  call. The descriptor set and the timeout of 2 s and 0 us are set at the top of every
  round of the loop. \<^verbatim>\<open>throw_error(s)\<close> throws \<^verbatim>\<open>std::runtime_error(s)\<close>; a failed
  \<^verbatim>\<open>assert\<close> aborts.
\<close>

function poll ::
  "subdevice \<Rightarrow> (nat \<Rightarrow> nat \<Rightarrow> 's \<Rightarrow> error + 's) \<Rightarrow> world \<Rightarrow> 's \<Rightarrow> ((error + 's) \<times> world) option"
where
  "poll sd f w s =
     (case sys (Select (fd sd + 1) [fd sd] 2 0) w of
        None \<Rightarrow> None
      | Some (sel, w1) \<Rightarrow>
          if ret sel = - 1 then
            (if errno w1 = EINTR then poll sd f w1 s
             else Some (Inl (Runtime_error ''select''), w1))
          else if ret sel = 0 then Some (Inl (Runtime_error ''select timeout''), w1)
          else
            (case xioctl (fd sd) VIDIOC_DQBUF (Arg_buffer (capture_buffer 0)) w1 of
               None \<Rightarrow> None
             | Some (dq, w2) \<Rightarrow>
                 if ret dq < 0 then
                   (if errno w2 = EAGAIN then poll sd f w2 s
                    else Some (Inl (Runtime_error ''VIDIOC_DQBUF''), w2))
                 else if \<not> unat (buf_index (o_buf dq)) < length (buffers sd) then
                   Some (Inl Assertion_failed, w2)
                 else
                   (let a = start (buffers sd ! unat (buf_index (o_buf dq)));
                        n = unat (buf_bytesused (o_buf dq));
                        w3 = emit (Callback a n) w2
                    in case f a n s of
                         Inl e \<Rightarrow> Some (Inl e, w3)
                       | Inr s' \<Rightarrow>
                           (case xioctl (fd sd) VIDIOC_QBUF (Arg_buffer (o_buf dq)) w3 of
                              None \<Rightarrow> None
                            | Some (qb, w4) \<Rightarrow>
                                if ret qb < 0 then Some (Inl (Runtime_error ''VIDIOC_QBUF''), w4)
                                else Some (Inr s', w4)))))"
  by pat_completeness auto
termination
proof (relation "measure (\<lambda>(sd, f, w, s). length (replies w))")
  show "wf (measure (\<lambda>(sd, f, w, s). length (replies w)))" by simp
next
  fix sd :: subdevice and f :: "nat \<Rightarrow> nat \<Rightarrow> 's \<Rightarrow> error + 's" and w s x2 x1 x2a
  assume "sys (Select (fd sd + 1) [fd sd] 2 0) w = Some x2" and "(x1, x2a) = x2"
  then have "length (replies x2a) < length (replies w)"
    by (auto dest: sys_shorter)
  then show "((sd, f, x2a, s), (sd, f, w, s)) \<in> measure (\<lambda>(sd, f, w, s). length (replies w))"
    by simp
next
  fix sd :: subdevice and f :: "nat \<Rightarrow> nat \<Rightarrow> 's \<Rightarrow> error + 's" and w s x2 x1 x2a x2b x1a x2c
  assume "sys (Select (fd sd + 1) [fd sd] 2 0) w = Some x2" and "(x1, x2a) = x2"
    and "xioctl (fd sd) VIDIOC_DQBUF (Arg_buffer (capture_buffer 0)) x2a = Some x2b"
    and "(x1a, x2c) = x2b"
  then have "length (replies x2a) < length (replies w)"
    and "length (replies x2c) < length (replies x2a)"
    by (auto dest: sys_shorter xioctl_shorter)
  then show "((sd, f, x2c, s), (sd, f, w, s)) \<in> measure (\<lambda>(sd, f, w, s). length (replies w))"
    by simp
qed

declare poll.simps [simp del]

subsection \<open>The callbacks of \<^verbatim>\<open>main\<close>\<close>

text \<open>
  The lambdas read the memory their \<^verbatim>\<open>data\<close> pointer refers to. Memory is a partial map
  from addresses to bytes; an address that is not mapped cannot be read. Reading or
  writing outside an object is undefined behaviour in C++: the model stops with
  \<open>Out_of_bounds\<close>.
\<close>

type_synonym memory = "nat \<Rightarrow> u8 option"

definition readable :: "memory \<Rightarrow> nat \<Rightarrow> nat \<Rightarrow> bool" where
  "readable mem a n = list_all (\<lambda>i. mem (a + i) \<noteq> None) [0..<n]"

definition bytes_at :: "memory \<Rightarrow> nat \<Rightarrow> nat \<Rightarrow> u8 list" where
  "bytes_at mem a n = map (\<lambda>i. the (mem (a + i))) [0..<n]"

text \<open>
  What the lambdas capture by reference: \<^verbatim>\<open>uint16_t z[320*240]; uint8_t y[320*240];\<close>
  \<^verbatim>\<open>uint8_t yuy2[640*480*2];\<close> and, as \<open>printed\<close>, the pairs of numbers handed to
  \<^verbatim>\<open>printf\<close>.
\<close>

record app =
  z :: "u16 list"
  y :: "u8 list"
  yuy2 :: "u8 list"
  printed :: "(nat \<times> nat) list"

definition depth_pixels :: nat where "depth_pixels = 320 * 240"
definition color_bytes :: nat where "color_bytes = 640 * 480 * 2"

text \<open>\<^verbatim>\<open>memcpy(yuy2, data, size); printf("%d %d\n", size, 640*480*2);\<close>\<close>

definition dev0_callback :: "memory \<Rightarrow> nat \<Rightarrow> nat \<Rightarrow> app \<Rightarrow> error + app" where
  "dev0_callback mem data sz a =
     (if sz \<le> length (yuy2 a) \<and> readable mem data sz then
        Inr (a\<lparr>yuy2 := bytes_at mem data sz @ drop sz (yuy2 a),
               printed := printed a @ [(sz, color_bytes)]\<rparr>)
      else Inl Out_of_bounds)"

text \<open>
  \<^verbatim>\<open>struct z16y8_pixel { uint16_t z; uint8_t y; }\<close> is packed: three bytes, \<^verbatim>\<open>z\<close> first.
  \<^verbatim>\<open>in[i].z\<close> is read in the byte order of the machine, taken to be little-endian (the
  low byte at the lower address).
  \<^verbatim>\<open>for(int i=0; i<320*240; ++i) { z[i] = in[i].z; y[i] = in[i].y; }\<close>
  \<^verbatim>\<open>printf("%d %d\n", size, 320*240*3);\<close>
\<close>

definition in_z :: "memory \<Rightarrow> nat \<Rightarrow> nat \<Rightarrow> u16" where
  "in_z mem data i = word_cat (the (mem (data + 3 * i + 1))) (the (mem (data + 3 * i)))"

definition in_y :: "memory \<Rightarrow> nat \<Rightarrow> nat \<Rightarrow> u8" where
  "in_y mem data i = the (mem (data + 3 * i + 2))"

function dev1_loop :: "memory \<Rightarrow> nat \<Rightarrow> nat \<Rightarrow> app \<Rightarrow> error + app" where
  "dev1_loop mem data i a =
     (if i < depth_pixels then
        (if readable mem (data + 3 * i) 3 \<and> i < length (z a) \<and> i < length (y a) then
           dev1_loop mem data (i + 1)
             (a\<lparr>z := (z a)[i := in_z mem data i], y := (y a)[i := in_y mem data i]\<rparr>)
         else Inl Out_of_bounds)
      else Inr a)"
  by pat_completeness auto
termination
  by (relation "measure (\<lambda>(mem, data, i, a). depth_pixels - i)") auto

declare dev1_loop.simps [simp del]

definition dev1_callback :: "memory \<Rightarrow> nat \<Rightarrow> nat \<Rightarrow> app \<Rightarrow> error + app" where
  "dev1_callback mem data sz a =
     (case dev1_loop mem data 0 a of
        Inl e \<Rightarrow> Inl e
      | Inr a' \<Rightarrow> Inr (a'\<lparr>printed := printed a' @ [(sz, depth_pixels * 3)]\<rparr>))"

text \<open>
  The bytes of one packed pixel, and a memory that holds given bytes from an address on.
\<close>

definition z16y8_bytes :: "u16 \<times> u8 \<Rightarrow> u8 list" where
  "z16y8_bytes p = [ucast (fst p), ucast (drop_bit 8 (fst p)), snd p]"

definition holds :: "memory \<Rightarrow> nat \<Rightarrow> u8 list \<Rightarrow> bool" where
  "holds mem a bs = list_all (\<lambda>i. mem (a + i) = Some (bs ! i)) [0..<length bs]"

subsection \<open>What a trace says about the buffers\<close>

text \<open>
  The events of a trace that move a buffer between the device and the application: a
  \<^verbatim>\<open>VIDIOC_DQBUF\<close> that succeeded (with the structure the kernel filled in), a call of
  the callback, and a \<^verbatim>\<open>VIDIOC_QBUF\<close> that succeeded (with the structure handed in).
  Calls that failed, interrupted attempts and waits are left out.
\<close>

datatype handoff = Dequeued v4l2_buffer | Called nat nat | Queued v4l2_buffer

fun handoff_of :: "event \<Rightarrow> handoff list" where
  "handoff_of (Sys (Ioctl fh VIDIOC_DQBUF a) rp) = (if ret rp < 0 then [] else [Dequeued (o_buf rp)])"
| "handoff_of (Sys (Ioctl fh VIDIOC_QBUF (Arg_buffer b)) rp) = (if ret rp < 0 then [] else [Queued b])"
| "handoff_of (Callback a n) = [Called a n]"
| "handoff_of e = []"

definition handoffs :: "event list \<Rightarrow> handoff list" where
  "handoffs tr = concat (map handoff_of tr)"

text \<open>
  An \<^verbatim>\<open>ioctl\<close> that was cut short by a signal, and a trace in which every such call is
  followed at once by the same call again (same descriptor, request and argument), so
  that no trace ends in one.
\<close>

fun interrupted_ioctl :: "event \<Rightarrow> bool" where
  "interrupted_ioctl (Sys (Ioctl fh rq a) rp) = interrupted rp"
| "interrupted_ioctl e = False"

fun same_call :: "event \<Rightarrow> event \<Rightarrow> bool" where
  "same_call (Sys c rp) (Sys c' rp') = (c = c')"
| "same_call e e' = False"

fun retried :: "event list \<Rightarrow> bool" where
  "retried [] = True"
| "retried [e] = (\<not> interrupted_ioctl e)"
| "retried (e # e' # es) = ((if interrupted_ioctl e then same_call e e' else True) \<and> retried (e' # es))"

text \<open>
  The calls that give a resource back (\<^verbatim>\<open>munmap\<close> and \<^verbatim>\<open>close\<close>), the releases of a
  trace in order, and the regions that \<^verbatim>\<open>mmap\<close> handed out (address and length).
\<close>

fun is_ioctl :: "call \<Rightarrow> bool" where
  "is_ioctl (Ioctl fh rq a) = True"
| "is_ioctl c = False"

fun is_release :: "call \<Rightarrow> bool" where
  "is_release (Munmap a l) = True"
| "is_release (Close fh) = True"
| "is_release c = False"

fun release_of :: "event \<Rightarrow> call list" where
  "release_of (Sys c rp) = (if is_release c then [c] else [])"
| "release_of e = []"

definition released :: "event list \<Rightarrow> call list" where
  "released tr = concat (map release_of tr)"

fun mapping_of :: "event \<Rightarrow> (nat \<times> nat) list" where
  "mapping_of (Sys (Mmap l pr fl fh off) rp) = (if o_addr rp = MAP_FAILED then [] else [(o_addr rp, l)])"
| "mapping_of e = []"

definition mappings :: "event list \<Rightarrow> (nat \<times> nat) list" where
  "mappings tr = concat (map mapping_of tr)"

text \<open>
  A property of the world that every step a member function can take keeps: a system
  call among the allowed ones, a whole \<^verbatim>\<open>xioctl\<close>, a line on \<^verbatim>\<open>stderr\<close> and a call of
  the callback.
\<close>

definition keeps :: "(call \<Rightarrow> bool) \<Rightarrow> (world \<Rightarrow> bool) \<Rightarrow> bool" where
  "keeps A P \<longleftrightarrow>
     (\<forall>c w rp w'. A c \<longrightarrow> sys c w = Some (rp, w') \<longrightarrow> P w \<longrightarrow> P w') \<and>
     (\<forall>fh rq a w rp w'. xioctl fh rq a w = Some (rp, w') \<longrightarrow> P w \<longrightarrow> P w') \<and>
     (\<forall>s w. P w \<longrightarrow> P (emit (Stderr s) w)) \<and>
     (\<forall>a n w. P w \<longrightarrow> P (emit (Callback a n) w))"

subsection \<open>Values for concrete runs\<close>

text \<open>
  A reply that reports success and sets nothing, a reply that fails with a given \<^verbatim>\<open>errno\<close>,
  the reply of a \<^verbatim>\<open>VIDIOC_DQBUF\<close> that hands over buffer \<open>i\<close> holding \<open>n\<close> bytes, a
  started device with two buffers, and a callback that records what it was called with.
\<close>

definition quiet :: reply where
  "quiet = \<lparr>ret = 0, err = 0, o_mode = 0, o_caps = 0,
          o_defrect = \<lparr>rect_left = 0, rect_top = 0, rect_width = 0, rect_height = 0\<rparr>,
          o_pix = \<lparr>pix_width = 0, pix_height = 0, pix_pixelformat = 0, pix_field = 0,
                   pix_bytesperline = 0, pix_sizeimage = 0\<rparr>,
          o_count = 0, o_buf = capture_buffer 0, o_addr = 0\<rparr>"

definition failing :: "int \<Rightarrow> reply" where
  "failing e = quiet\<lparr>ret := - 1, err := e\<rparr>"

definition filled :: "u32 \<Rightarrow> u32 \<Rightarrow> reply" where
  "filled i n = quiet\<lparr>o_buf := (capture_buffer i)\<lparr>buf_bytesused := n\<rparr>\<rparr>"

definition video0 :: subdevice where
  "video0 = \<lparr>dev_name = ''/dev/video0'', fd = 3,
             buffers = [\<lparr>start = 4096, length_b = 100\<rparr>, \<lparr>start = 8192, length_b = 100\<rparr>]\<rparr>"

definition scripted :: "reply list \<Rightarrow> world" where
  "scripted rs = \<lparr>replies = rs, errno = 0, trace = []\<rparr>"

definition note_frame :: "nat \<Rightarrow> nat \<Rightarrow> (nat \<times> nat) list \<Rightarrow> error + (nat \<times> nat) list" where
  "note_frame a n s = Inr (s @ [(a, n)])"

definition vga :: v4l2_pix_format where
  "vga = \<lparr>pix_width = 640, pix_height = 480, pix_pixelformat = 0, pix_field = 0,
          pix_bytesperline = 0, pix_sizeimage = 0\<rparr>"

definition region :: "nat \<Rightarrow> u8 list \<Rightarrow> memory" where
  "region base bs = (\<lambda>a. if base \<le> a \<and> a < base + length bs then Some (bs ! (a - base)) else None)"

definition steady :: "u8 \<Rightarrow> memory" where
  "steady v = (\<lambda>a. Some v)"

definition blank :: app where
  "blank = \<lparr>z = replicate depth_pixels 0, y = replicate depth_pixels 0,
            yuy2 = replicate color_bytes 0, printed = []\<rparr>"

definition sample :: "(u16 \<times> u8) list" where
  "sample = (100, 10) # (4000, 250) # replicate (depth_pixels - 2) (0, 0)"

definition chr_mode :: reply where
  "chr_mode = quiet\<lparr>o_mode := 0x21B0\<rparr>"

definition capable :: reply where
  "capable = quiet\<lparr>o_caps := 0x04000001\<rparr>"

definition granted :: "u32 \<Rightarrow> reply" where
  "granted n = quiet\<lparr>o_count := n\<rparr>"

definition described :: "u32 \<Rightarrow> u32 \<Rightarrow> reply" where
  "described off len = quiet\<lparr>o_buf := (capture_buffer 0)\<lparr>buf_offset := off, buf_length := len\<rparr>\<rparr>"

definition at_address :: "nat \<Rightarrow> reply" where
  "at_address a = quiet\<lparr>o_addr := a\<rparr>"

definition negotiated :: "reply list" where
  "negotiated = [chr_mode, quiet\<lparr>ret := 3\<rparr>, capable, failing EINVAL, quiet]"

definition two_mapped :: "reply list" where
  "two_mapped = [described 0 4096, at_address 65536, described 4096 4096, at_address 69632]"

definition third_mapping_fails :: "reply list" where
  "third_mapping_fails =
     negotiated @ granted 4 # two_mapped @ [described 8192 4096, at_address MAP_FAILED]"

definition interrupted_start :: "reply list" where
  "interrupted_start =
     [chr_mode, quiet\<lparr>ret := 3\<rparr>, failing EINTR, failing EINTR, capable, failing EINVAL, quiet,
      failing EINTR, granted 2, described 0 4096, at_address 65536, failing EINTR,
      described 4096 4096, at_address 69632, quiet, failing EINTR, quiet, failing EINTR, quiet]"

lemmas demo_defs = quiet_def failing_def filled_def video0_def scripted_def note_frame_def
  EINTR_def EAGAIN_def emit_def capture_buffer_def sys_def

lemmas ctor_defs = subdevice_ctor_def negotiate_def start_streaming_def open_device_def
  query_capabilities_def reset_crop_def negotiate_format_def request_buffers_def stream_on_def
  io_bind_def io_return_def io_throw_def map_buffers.simps queue_buffers.simps xioctl.simps
  S_ISCHR_def V4L2_CAP_VIDEO_CAPTURE_def V4L2_CAP_STREAMING_def MAP_FAILED_def EINVAL_def
  chr_mode_def capable_def granted_def described_def at_address_def

section \<open>Properties of the system calls and of \<^verbatim>\<open>xioctl\<close>\<close>

lemma sys_Cons:
  "replies w = rp # rest \<Longrightarrow>
   sys c w = Some (rp, w\<lparr>replies := rest, errno := err rp, trace := trace w @ [Sys c rp]\<rparr>)"
  by (simp add: sys_def)

lemma xioctl_interrupted:
  "list_all interrupted ints \<Longrightarrow> \<not> interrupted rp \<Longrightarrow> replies w = ints @ rp # rest \<Longrightarrow>
   xioctl fh rq a w =
     Some (rp, w\<lparr>replies := rest, errno := err rp,
                 trace := trace w @ map (Sys (Ioctl fh rq a)) (ints @ [rp])\<rparr>)"
proof (induction ints arbitrary: w)
  case Nil
  then show ?case
    by (auto simp: xioctl.simps [of fh rq a w] sys_Cons interrupted_def)
next
  case (Cons i ints)
  let ?w1 = "w\<lparr>replies := ints @ rp # rest, errno := err i, trace := trace w @ [Sys (Ioctl fh rq a) i]\<rparr>"
  from Cons.prems have r: "list_all interrupted ints" and "interrupted i"
    by simp_all
  then have i: "ret i < 0" "err i = EINTR"
    by (simp_all add: interrupted_def)
  from Cons.prems have "sys (Ioctl fh rq a) w = Some (i, ?w1)"
    by (simp add: sys_Cons)
  with i have "xioctl fh rq a w = xioctl fh rq a ?w1"
    by (simp add: xioctl.simps [of fh rq a w])
  also have "\<dots> = Some (rp, ?w1\<lparr>replies := rest, errno := err rp,
                 trace := trace ?w1 @ map (Sys (Ioctl fh rq a)) (ints @ [rp])\<rparr>)"
    by (rule Cons.IH [OF r Cons.prems(2)]) simp
  finally show ?case by simp
qed

lemma xioctl_result:
  "xioctl fh rq a w = Some (rp, w') \<Longrightarrow> errno w' = err rp \<and> \<not> interrupted rp"
proof (induction fh rq a w rule: xioctl.induct)
  case (1 fh rq arg w)
  from "1.prems" obtain r1 w1 where s: "sys (Ioctl fh rq arg) w = Some (r1, w1)"
    by (auto simp: xioctl.simps [of fh rq arg w] split: option.splits)
  then have e: "errno w1 = err r1"
    by (auto simp: sys_def split: list.splits)
  show ?case
  proof (cases "ret r1 < 0 \<and> errno w1 = EINTR")
    case True
    with s "1.prems" have "xioctl fh rq arg w1 = Some (rp, w')"
      by (simp add: xioctl.simps [of fh rq arg w])
    with "1.IH" [OF s refl True] show ?thesis by simp
  next
    case False
    with s "1.prems" have "w' = w1" "rp = r1"
      by (auto simp: xioctl.simps [of fh rq arg w])
    with False e show ?thesis by (simp add: interrupted_def)
  qed
qed

lemma xioctl_unfold:
  assumes "xioctl fh rq a w = Some (rp, w')"
  shows "\<exists>ints rest. replies w = ints @ rp # rest \<and> list_all interrupted ints \<and>
           \<not> interrupted rp \<and>
           w' = w\<lparr>replies := rest, errno := err rp,
                  trace := trace w @ map (Sys (Ioctl fh rq a)) (ints @ [rp])\<rparr>"
  using assms
proof (induction fh rq a w rule: xioctl.induct)
  case (1 fh rq arg w)
  from "1.prems" obtain r1 w1 where s: "sys (Ioctl fh rq arg) w = Some (r1, w1)"
    by (auto simp: xioctl.simps [of fh rq arg w] split: option.splits)
  then obtain rest1 where w: "replies w = r1 # rest1"
    and w1: "w1 = w\<lparr>replies := rest1, errno := err r1, trace := trace w @ [Sys (Ioctl fh rq arg) r1]\<rparr>"
    by (auto simp: sys_def split: list.splits)
  show ?case
  proof (cases "ret r1 < 0 \<and> errno w1 = EINTR")
    case True
    with s "1.prems" have "xioctl fh rq arg w1 = Some (rp, w')"
      by (simp add: xioctl.simps [of fh rq arg w])
    from "1.IH" [OF s refl True this] obtain ints rest where
      a: "replies w1 = ints @ rp # rest" "list_all interrupted ints" "\<not> interrupted rp"
      and b: "w' = w1\<lparr>replies := rest, errno := err rp,
                  trace := trace w1 @ map (Sys (Ioctl fh rq arg)) (ints @ [rp])\<rparr>"
      by blast
    from True w1 have i: "interrupted r1" by (simp add: interrupted_def)
    have "replies w = (r1 # ints) @ rp # rest" using a(1) w w1 by simp
    moreover have "list_all interrupted (r1 # ints)" using i a(2) by simp
    moreover have "w' = w\<lparr>replies := rest, errno := err rp,
                  trace := trace w @ map (Sys (Ioctl fh rq arg)) ((r1 # ints) @ [rp])\<rparr>"
      using b w1 by simp
    ultimately show ?thesis using a(3) by blast
  next
    case False
    with s "1.prems" have e: "w' = w1" "rp = r1"
      by (auto simp: xioctl.simps [of fh rq arg w])
    from False w1 have "\<not> interrupted r1" by (simp add: interrupted_def)
    with e w w1 have "replies w = [] @ rp # rest1 \<and> list_all interrupted [] \<and> \<not> interrupted rp \<and>
        w' = w\<lparr>replies := rest1, errno := err rp,
                  trace := trace w @ map (Sys (Ioctl fh rq arg)) ([] @ [rp])\<rparr>"
      by simp
    then show ?thesis by blast
  qed
qed

lemma handoffs_append [simp]: "handoffs (xs @ ys) = handoffs xs @ handoffs ys"
  by (simp add: handoffs_def)

lemma handoffs_single [simp]: "handoffs [e] = handoff_of e"
  by (simp add: handoffs_def)

lemma handoffs_Nil [simp]: "handoffs [] = []"
  by (simp add: handoffs_def)

lemma handoff_failed_ioctl: "ret rp < 0 \<Longrightarrow> handoff_of (Sys (Ioctl fh rq a) rp) = []"
  by (cases "(Sys (Ioctl fh rq a) rp)" rule: handoff_of.cases) auto

lemma sys_effect:
  "sys c w = Some (rp, w') \<Longrightarrow>
   replies w = rp # replies w' \<and> errno w' = err rp \<and> trace w' = trace w @ [Sys c rp]"
  by (auto simp: sys_def split: list.splits)

lemma xioctl_handoffs:
  "xioctl fh rq a w = Some (rp, w') \<Longrightarrow>
   handoffs (trace w') = handoffs (trace w) @ handoff_of (Sys (Ioctl fh rq a) rp)"
proof (induction fh rq a w rule: xioctl.induct)
  case (1 fh rq arg w)
  from "1.prems" obtain r1 w1 where s: "sys (Ioctl fh rq arg) w = Some (r1, w1)"
    by (auto simp: xioctl.simps [of fh rq arg w] split: option.splits)
  note e = sys_effect [OF s]
  show ?case
  proof (cases "ret r1 < 0 \<and> errno w1 = EINTR")
    case True
    with s "1.prems" have "xioctl fh rq arg w1 = Some (rp, w')"
      by (simp add: xioctl.simps [of fh rq arg w])
    with "1.IH" [OF s refl True] e True show ?thesis
      by (simp add: handoff_failed_ioctl)
  next
    case False
    with s "1.prems" have "w' = w1" "rp = r1"
      by (auto simp: xioctl.simps [of fh rq arg w])
    with e show ?thesis by simp
  qed
qed

section \<open>Properties of \<^verbatim>\<open>poll\<close>\<close>

lemma poll_select_interrupted:
  assumes "replies w = i # rest" "ret i = - 1" "err i = EINTR"
  shows "poll sd f w s =
         poll sd f (w\<lparr>replies := rest, errno := EINTR,
                      trace := trace w @ [Sys (Select (fd sd + 1) [fd sd] 2 0) i]\<rparr>) s"
  using assms by (simp add: poll.simps [of sd f w s] sys_Cons)

lemma poll_retries_select:
  assumes "list_all (\<lambda>rp. ret rp = - 1 \<and> err rp = EINTR) ints" "replies w = ints @ rest"
  shows "poll sd f w s =
         poll sd f (w\<lparr>replies := rest, errno := (if ints = [] then errno w else EINTR),
                      trace := trace w @ map (Sys (Select (fd sd + 1) [fd sd] 2 0)) ints\<rparr>) s"
  using assms
proof (induction ints arbitrary: w)
  case Nil
  then have "w\<lparr>replies := rest, errno := errno w, trace := trace w\<rparr> = w" by simp
  then show ?case by simp
next
  case (Cons i ints)
  let ?w1 = "w\<lparr>replies := ints @ rest, errno := EINTR,
                      trace := trace w @ [Sys (Select (fd sd + 1) [fd sd] 2 0) i]\<rparr>"
  from Cons.prems have "poll sd f w s = poll sd f ?w1 s"
    by (intro poll_select_interrupted) simp_all
  also have "\<dots> = poll sd f (?w1\<lparr>replies := rest, errno := (if ints = [] then errno ?w1 else EINTR),
                      trace := trace ?w1 @ map (Sys (Select (fd sd + 1) [fd sd] 2 0)) ints\<rparr>) s"
    using Cons.prems by (intro Cons.IH) simp_all
  finally show ?case by simp
qed

lemma poll_frame_ready:
  assumes "replies w = sel # dq # qb # rest"
    and "ret sel \<noteq> - 1" "ret sel \<noteq> 0" "0 \<le> ret dq" "0 \<le> ret qb"
    and "unat (buf_index (o_buf dq)) < length (buffers sd)"
    and "f (start (buffers sd ! unat (buf_index (o_buf dq)))) (unat (buf_bytesused (o_buf dq))) s = Inr s'"
  shows "poll sd f w s =
     Some (Inr s',
           w\<lparr>replies := rest, errno := err qb,
             trace := trace w @
               [Sys (Select (fd sd + 1) [fd sd] 2 0) sel,
                Sys (Ioctl (fd sd) VIDIOC_DQBUF (Arg_buffer (capture_buffer 0))) dq,
                Callback (start (buffers sd ! unat (buf_index (o_buf dq))))
                         (unat (buf_bytesused (o_buf dq))),
                Sys (Ioctl (fd sd) VIDIOC_QBUF (Arg_buffer (o_buf dq))) qb]\<rparr>)"
  using assms
  by (simp add: poll.simps [of sd f w s] sys_Cons xioctl.simps emit_def Let_def)


text \<open>
  What \<^verbatim>\<open>poll\<close> returns or throws depends on the world only through the replies that are
  still to come, not on the \<^verbatim>\<open>errno\<close> or the trace it starts with.
\<close>

lemma sys_script:
  assumes "replies w = replies v"
  shows "sys c w = None \<Longrightarrow> sys c' v = None"
    and "sys c w = Some (rp, w') \<Longrightarrow>
         \<exists>v'. sys c' v = Some (rp, v') \<and> replies v' = replies w' \<and> errno v' = errno w'"
  using assms by (auto simp: sys_def split: list.splits)

lemma xioctl_script_Some:
  assumes "replies w = replies v" "xioctl fh rq a w = Some (rp, w')"
  shows "\<exists>v'. xioctl fh rq a v = Some (rp, v') \<and> replies v' = replies w' \<and> errno v' = errno w'"
proof -
  from xioctl_unfold [OF assms(2)] obtain ints rest where
    u: "replies w = ints @ rp # rest" "list_all interrupted ints" "\<not> interrupted rp"
    and w': "w' = w\<lparr>replies := rest, errno := err rp,
                  trace := trace w @ map (Sys (Ioctl fh rq a)) (ints @ [rp])\<rparr>"
    by blast
  from u assms(1) have "replies v = ints @ rp # rest" by simp
  from xioctl_interrupted [OF u(2,3) this, of fh rq a] w' show ?thesis by simp
qed

lemma xioctl_script_None:
  assumes "replies w = replies v" "xioctl fh rq a w = None"
  shows "xioctl fh rq a v = None"
proof (cases "xioctl fh rq a v")
  case None
  then show ?thesis .
next
  case (Some x)
  obtain rp v' where "x = (rp, v')" by (cases x)
  with Some xioctl_script_Some [of v w fh rq a rp v'] assms show ?thesis by auto
qed

lemma poll_script:
  "replies w = replies v \<Longrightarrow> map_option fst (poll sd f w s) = map_option fst (poll sd f v s)"
proof (induction "length (replies w)" arbitrary: w v rule: less_induct)
  case less
  note eq = less.prems
  show ?case
  proof (cases "sys (Select (fd sd + 1) [fd sd] 2 0) w")
    case None
    with sys_script(1) [OF eq] have "sys (Select (fd sd + 1) [fd sd] 2 0) v = None" by blast
    with None show ?thesis
      by (simp add: poll.simps [of sd f w s] poll.simps [of sd f v s])
  next
    case (Some x)
    obtain sel w1 where x: "x = (sel, w1)" by (cases x)
    with Some have s1: "sys (Select (fd sd + 1) [fd sd] 2 0) w = Some (sel, w1)" by simp
    from sys_script(2) [OF eq s1] obtain v1 where
      t1: "sys (Select (fd sd + 1) [fd sd] 2 0) v = Some (sel, v1)"
      and r1: "replies v1 = replies w1" and e1: "errno v1 = errno w1"
      by blast
    have l1: "length (replies w1) < length (replies w)"
      using sys_shorter [OF s1] .
    show ?thesis
    proof (cases "ret sel = - 1 \<or> ret sel = 0")
      case True
      show ?thesis
      proof (cases "ret sel = - 1 \<and> errno w1 = EINTR")
        case True
        with s1 t1 e1 have "poll sd f w s = poll sd f w1 s" "poll sd f v s = poll sd f v1 s"
          by (simp_all add: poll.simps [of sd f w s] poll.simps [of sd f v s])
        with less.hyps [OF l1 r1 [symmetric]] show ?thesis by simp
      next
        case False
        with \<open>ret sel = - 1 \<or> ret sel = 0\<close> s1 t1 e1 show ?thesis
          by (auto simp: poll.simps [of sd f w s] poll.simps [of sd f v s])
      qed
    next
      case rdy: False
      let ?dq = "xioctl (fd sd) VIDIOC_DQBUF (Arg_buffer (capture_buffer 0))"
      show ?thesis
      proof (cases "?dq w1")
        case None
        with xioctl_script_None [OF r1 [symmetric]] have "?dq v1 = None" by blast
        with None rdy s1 t1 show ?thesis
          by (simp add: poll.simps [of sd f w s] poll.simps [of sd f v s])
      next
        case (Some y)
        obtain dq w2 where "y = (dq, w2)" by (cases y)
        with Some have s2: "?dq w1 = Some (dq, w2)" by simp
        from xioctl_script_Some [OF r1 [symmetric] s2] obtain v2 where
          t2: "?dq v1 = Some (dq, v2)" and r2: "replies v2 = replies w2"
          and e2: "errno v2 = errno w2"
          by blast
        have l2: "length (replies w2) < length (replies w)"
          using xioctl_shorter [OF s2] l1 by simp
        show ?thesis
        proof (cases "ret dq < 0")
          case True
          show ?thesis
          proof (cases "errno w2 = EAGAIN")
            case True
            with \<open>ret dq < 0\<close> rdy s1 t1 s2 t2 e2
            have "poll sd f w s = poll sd f w2 s" "poll sd f v s = poll sd f v2 s"
              by (simp_all add: poll.simps [of sd f w s] poll.simps [of sd f v s])
            with less.hyps [OF l2 r2 [symmetric]] show ?thesis by simp
          next
            case False
            with \<open>ret dq < 0\<close> rdy s1 t1 s2 t2 e2 show ?thesis
              by (simp add: poll.simps [of sd f w s] poll.simps [of sd f v s])
          qed
        next
          case ok: False
          let ?b = "o_buf dq"
          let ?a = "start (buffers sd ! unat (buf_index ?b))"
          let ?n = "unat (buf_bytesused ?b)"
          let ?qb = "xioctl (fd sd) VIDIOC_QBUF (Arg_buffer ?b)"
          have r3: "replies (emit (Callback ?a ?n) w2) = replies (emit (Callback ?a ?n) v2)"
            using r2 by (simp add: emit_def)
          show ?thesis
          proof (cases "?qb (emit (Callback ?a ?n) w2)")
            case None
            with xioctl_script_None [OF r3] have "?qb (emit (Callback ?a ?n) v2) = None" by blast
            with None ok rdy s1 t1 s2 t2 show ?thesis
              by (simp add: poll.simps [of sd f w s] poll.simps [of sd f v s] Let_def
                  split: sum.splits)
          next
            case (Some u)
            obtain qb w4 where "u = (qb, w4)" by (cases u)
            with Some have s4: "?qb (emit (Callback ?a ?n) w2) = Some (qb, w4)" by simp
            from xioctl_script_Some [OF r3 s4] obtain v4 where
              "?qb (emit (Callback ?a ?n) v2) = Some (qb, v4)"
              by blast
            with s4 ok rdy s1 t1 s2 t2 show ?thesis
              by (simp add: poll.simps [of sd f w s] poll.simps [of sd f v s] Let_def
                  split: sum.splits)
          qed
        qed
      qed
    qed
  qed
qed

text \<open>
  Claim C1. Whatever the kernel replies, when \<^verbatim>\<open>poll\<close> returns normally it has dequeued
  exactly one buffer \<open>b\<close>, then called the callback exactly once, with the start address of
  buffer \<open>buf.index\<close> and \<open>buf.bytesused\<close>, then queued the same \<open>b\<close> again with success,
  in this order and with no other hand-over. When \<^verbatim>\<open>poll\<close> fails, no buffer was queued:
  either nothing was dequeued, or the index assertion failed, or the callback failed, or
  the re-submission failed, which throws \<^verbatim>\<open>VIDIOC_QBUF\<close>.
\<close>

theorem poll_returns_buffer:
  assumes "poll sd f w s = Some (r, w')"
  shows "\<exists>hs. handoffs (trace w') = handoffs (trace w) @ hs \<and>
    (case r of
       Inr s' \<Rightarrow>
         (\<exists>b. unat (buf_index b) < length (buffers sd) \<and>
              f (start (buffers sd ! unat (buf_index b))) (unat (buf_bytesused b)) s = Inr s' \<and>
              hs = [Dequeued b,
                    Called (start (buffers sd ! unat (buf_index b))) (unat (buf_bytesused b)),
                    Queued b])
     | Inl e \<Rightarrow>
         hs = [] \<or>
         (\<exists>b. hs = [Dequeued b] \<and> e = Assertion_failed) \<or>
         (\<exists>b. hs = [Dequeued b,
                    Called (start (buffers sd ! unat (buf_index b))) (unat (buf_bytesused b))] \<and>
              (f (start (buffers sd ! unat (buf_index b))) (unat (buf_bytesused b)) s = Inl e \<or>
               e = Runtime_error ''VIDIOC_QBUF'')))"
  using assms
proof (induction "length (replies w)" arbitrary: w rule: less_induct)
  case less
  note p = less.prems
  from p obtain sel w1 where s1: "sys (Select (fd sd + 1) [fd sd] 2 0) w = Some (sel, w1)"
    by (auto simp: poll.simps [of sd f w s] split: option.splits)
  note e1 = sys_effect [OF s1]
  have h1: "handoffs (trace w1) = handoffs (trace w)"
    using e1 by simp
  have l1: "length (replies w1) < length (replies w)"
    using sys_shorter [OF s1] .
  show ?case
  proof (cases "ret sel = - 1")
    case True
    show ?thesis
    proof (cases "errno w1 = EINTR")
      case True
      with \<open>ret sel = - 1\<close> s1 p have "poll sd f w1 s = Some (r, w')"
        by (simp add: poll.simps [of sd f w s])
      from less.hyps [OF l1 this] h1 show ?thesis by simp
    next
      case False
      with \<open>ret sel = - 1\<close> s1 p have "r = Inl (Runtime_error ''select'')" "w' = w1"
        by (simp_all add: poll.simps [of sd f w s])
      with h1 show ?thesis by simp
    qed
  next
    case nm: False
    show ?thesis
    proof (cases "ret sel = 0")
      case True
      with s1 p have "r = Inl (Runtime_error ''select timeout'')" "w' = w1"
        by (simp_all add: poll.simps [of sd f w s])
      with h1 show ?thesis by simp
    next
      case nz: False
      from p nm nz s1 obtain dq w2 where
        s2: "xioctl (fd sd) VIDIOC_DQBUF (Arg_buffer (capture_buffer 0)) w1 = Some (dq, w2)"
        by (auto simp: poll.simps [of sd f w s] split: option.splits)
      note h2 = xioctl_handoffs [OF s2]
      have l2: "length (replies w2) < length (replies w)"
        using xioctl_shorter [OF s2] l1 by simp
      show ?thesis
      proof (cases "ret dq < 0")
        case True
        then have h2': "handoffs (trace w2) = handoffs (trace w)"
          using h2 h1 by simp
        show ?thesis
        proof (cases "errno w2 = EAGAIN")
          case True
          with \<open>ret dq < 0\<close> nm nz s1 s2 p have "poll sd f w2 s = Some (r, w')"
            by (simp add: poll.simps [of sd f w s])
          from less.hyps [OF l2 this] h2' show ?thesis by simp
        next
          case False
          with \<open>ret dq < 0\<close> nm nz s1 s2 p
          have "r = Inl (Runtime_error ''VIDIOC_DQBUF'')" "w' = w2"
            by (simp_all add: poll.simps [of sd f w s])
          with h2' show ?thesis by simp
        qed
      next
        case ok: False
        then have h2': "handoffs (trace w2) = handoffs (trace w) @ [Dequeued (o_buf dq)]"
          using h2 h1 by simp
        let ?b = "o_buf dq"
        let ?a = "start (buffers sd ! unat (buf_index ?b))"
        let ?n = "unat (buf_bytesused ?b)"
        show ?thesis
        proof (cases "unat (buf_index ?b) < length (buffers sd)")
          case False
          with ok nm nz s1 s2 p have "r = Inl Assertion_failed" "w' = w2"
            by (simp_all add: poll.simps [of sd f w s])
          with h2' show ?thesis by simp
        next
          case inb: True
          let ?w3 = "emit (Callback ?a ?n) w2"
          have h3: "handoffs (trace ?w3) = handoffs (trace w) @ [Dequeued ?b, Called ?a ?n]"
            using h2' by (simp add: emit_def)
          show ?thesis
          proof (cases "f ?a ?n s")
            case (Inl e)
            with inb ok nm nz s1 s2 p have "r = Inl e" "w' = ?w3"
              by (simp_all add: poll.simps [of sd f w s] Let_def)
            with h3 Inl show ?thesis by auto
          next
            case (Inr s')
            with inb ok nm nz s1 s2 p obtain qb w4 where
              s4: "xioctl (fd sd) VIDIOC_QBUF (Arg_buffer ?b) ?w3 = Some (qb, w4)"
              by (auto simp: poll.simps [of sd f w s] Let_def split: option.splits)
            note h4 = xioctl_handoffs [OF s4]
            show ?thesis
            proof (cases "ret qb < 0")
              case True
              with Inr inb ok nm nz s1 s2 s4 p
              have "r = Inl (Runtime_error ''VIDIOC_QBUF'')" "w' = w4"
                by (simp_all add: poll.simps [of sd f w s] Let_def)
              with h4 h3 True show ?thesis by auto
            next
              case False
              with Inr inb ok nm nz s1 s2 s4 p
              have "r = Inr s'" "w' = w4"
                by (simp_all add: poll.simps [of sd f w s] Let_def)
              with h4 h3 False Inr inb show ?thesis by auto
            qed
          qed
        qed
      qed
    qed
  qed
qed


theorem poll_returns_buffer_witness:
  "\<exists>w' b. poll video0 note_frame (scripted [quiet\<lparr>ret := 1\<rparr>, filled 1 77, quiet]) [] =
            Some (Inr [(8192, 77)], w') \<and>
          handoffs (trace w') = [Dequeued b, Called 8192 77, Queued b]"
proof -
  let ?w = "scripted [quiet\<lparr>ret := 1\<rparr>, filled 1 77, quiet]"
  obtain w' where run: "poll video0 note_frame ?w [] = Some (Inr [(8192, 77)], w')"
    by (simp add: poll.simps xioctl.simps demo_defs)
  from poll_returns_buffer [OF run] obtain b where
    f: "note_frame (start (buffers video0 ! unat (buf_index b))) (unat (buf_bytesused b)) [] =
        Inr [(8192, 77)]"
    and h: "handoffs (trace w') = handoffs (trace ?w) @
        [Dequeued b,
         Called (start (buffers video0 ! unat (buf_index b))) (unat (buf_bytesused b)),
         Queued b]"
    by auto
  from f have "start (buffers video0 ! unat (buf_index b)) = 8192" "unat (buf_bytesused b) = 77"
    by (simp_all add: note_frame_def)
  with h have "handoffs (trace w') = [Dequeued b, Called 8192 77, Queued b]"
    by (simp add: scripted_def)
  with run show ?thesis by blast
qed

text \<open>
  Claim C5. A \<^verbatim>\<open>select\<close> that returns -1 with \<^verbatim>\<open>EINTR\<close> makes \<^verbatim>\<open>poll\<close> wait again.
  After any number of such interruptions \<^verbatim>\<open>poll\<close> goes on exactly as a call of \<^verbatim>\<open>poll\<close>
  that starts then: every wait, the first and each retry, is made with the full timeout
  of 2 s and 0 us, and what the caller gets (the value or the exception) is what it
  would have got without the interruptions. In particular a frame that is ready after
  the interruptions is handed to the callback and \<^verbatim>\<open>poll\<close> returns normally.
\<close>

theorem poll_survives_interruptions:
  assumes "list_all (\<lambda>rp. ret rp = - 1 \<and> err rp = EINTR) ints"
  shows "poll sd f (w\<lparr>replies := ints @ rest\<rparr>) s =
           poll sd f (w\<lparr>replies := rest, errno := (if ints = [] then errno w else EINTR),
                        trace := trace w @ map (Sys (Select (fd sd + 1) [fd sd] 2 0)) ints\<rparr>) s \<and>
         map_option fst (poll sd f (w\<lparr>replies := ints @ rest\<rparr>) s) =
           map_option fst (poll sd f (w\<lparr>replies := rest\<rparr>) s) \<and>
         (rest = sel # dq # qb # rest' \<and> ret sel \<noteq> - 1 \<and> ret sel \<noteq> 0 \<and> 0 \<le> ret dq \<and>
          0 \<le> ret qb \<and> unat (buf_index (o_buf dq)) < length (buffers sd) \<and>
          f (start (buffers sd ! unat (buf_index (o_buf dq)))) (unat (buf_bytesused (o_buf dq))) s
            = Inr s' \<longrightarrow>
          poll sd f (w\<lparr>replies := ints @ rest\<rparr>) s =
            Some (Inr s',
              w\<lparr>replies := rest', errno := err qb,
                trace := trace w @ map (Sys (Select (fd sd + 1) [fd sd] 2 0)) (ints @ [sel]) @
                  [Sys (Ioctl (fd sd) VIDIOC_DQBUF (Arg_buffer (capture_buffer 0))) dq,
                   Callback (start (buffers sd ! unat (buf_index (o_buf dq))))
                            (unat (buf_bytesused (o_buf dq))),
                   Sys (Ioctl (fd sd) VIDIOC_QBUF (Arg_buffer (o_buf dq))) qb]\<rparr>))"
proof (intro conjI impI)
  let ?w0 = "w\<lparr>replies := ints @ rest\<rparr>"
  let ?w1 = "w\<lparr>replies := rest, errno := (if ints = [] then errno w else EINTR),
                trace := trace w @ map (Sys (Select (fd sd + 1) [fd sd] 2 0)) ints\<rparr>"
  have "poll sd f ?w0 s =
        poll sd f (?w0\<lparr>replies := rest, errno := (if ints = [] then errno ?w0 else EINTR),
                        trace := trace ?w0 @ map (Sys (Select (fd sd + 1) [fd sd] 2 0)) ints\<rparr>) s"
    using assms by (intro poll_retries_select) simp_all
  then show step: "poll sd f ?w0 s = poll sd f ?w1 s" by simp
  have "map_option fst (poll sd f ?w1 s) = map_option fst (poll sd f (w\<lparr>replies := rest\<rparr>) s)"
    by (rule poll_script) simp
  with step show "map_option fst (poll sd f ?w0 s) =
      map_option fst (poll sd f (w\<lparr>replies := rest\<rparr>) s)"
    by simp
  assume r: "rest = sel # dq # qb # rest' \<and> ret sel \<noteq> - 1 \<and> ret sel \<noteq> 0 \<and> 0 \<le> ret dq \<and>
          0 \<le> ret qb \<and> unat (buf_index (o_buf dq)) < length (buffers sd) \<and>
          f (start (buffers sd ! unat (buf_index (o_buf dq)))) (unat (buf_bytesused (o_buf dq))) s
            = Inr s'"
  then have "poll sd f ?w1 s = Some (Inr s',
           ?w1\<lparr>replies := rest', errno := err qb,
             trace := trace ?w1 @
               [Sys (Select (fd sd + 1) [fd sd] 2 0) sel,
                Sys (Ioctl (fd sd) VIDIOC_DQBUF (Arg_buffer (capture_buffer 0))) dq,
                Callback (start (buffers sd ! unat (buf_index (o_buf dq))))
                         (unat (buf_bytesused (o_buf dq))),
                Sys (Ioctl (fd sd) VIDIOC_QBUF (Arg_buffer (o_buf dq))) qb]\<rparr>)"
    by (intro poll_frame_ready) simp_all
  with step show "poll sd f ?w0 s =
            Some (Inr s',
              w\<lparr>replies := rest', errno := err qb,
                trace := trace w @ map (Sys (Select (fd sd + 1) [fd sd] 2 0)) (ints @ [sel]) @
                  [Sys (Ioctl (fd sd) VIDIOC_DQBUF (Arg_buffer (capture_buffer 0))) dq,
                   Callback (start (buffers sd ! unat (buf_index (o_buf dq))))
                            (unat (buf_bytesused (o_buf dq))),
                   Sys (Ioctl (fd sd) VIDIOC_QBUF (Arg_buffer (o_buf dq))) qb]\<rparr>)"
    by simp
qed

theorem poll_survives_interruptions_witness:
  "poll video0 note_frame
     (scripted (replicate 3 (failing EINTR) @ [quiet\<lparr>ret := 1\<rparr>, filled 1 77, quiet])) [] =
   Some (Inr [(8192, 77)],
         \<lparr>replies = [], errno = 0,
          trace = map (Sys (Select 4 [3] 2 0)) (replicate 3 (failing EINTR) @ [quiet\<lparr>ret := 1\<rparr>]) @
            [Sys (Ioctl 3 VIDIOC_DQBUF (Arg_buffer (capture_buffer 0))) (filled 1 77),
             Callback 8192 77,
             Sys (Ioctl 3 VIDIOC_QBUF (Arg_buffer ((capture_buffer 1)\<lparr>buf_bytesused := 77\<rparr>))) quiet]\<rparr>)"
proof -
  have i: "list_all (\<lambda>rp. ret rp = - 1 \<and> err rp = EINTR) (replicate 3 (failing EINTR))"
    by (simp add: list_all_iff failing_def)
  have "poll video0 note_frame
          ((scripted [])\<lparr>replies := replicate 3 (failing EINTR) @
              [quiet\<lparr>ret := 1\<rparr>, filled 1 77, quiet]\<rparr>) [] =
        Some (Inr [(8192, 77)],
          (scripted [])\<lparr>replies := [], errno := err quiet,
             trace := trace (scripted []) @
               map (Sys (Select (fd video0 + 1) [fd video0] 2 0))
                 (replicate 3 (failing EINTR) @ [quiet\<lparr>ret := 1\<rparr>]) @
               [Sys (Ioctl (fd video0) VIDIOC_DQBUF (Arg_buffer (capture_buffer 0))) (filled 1 77),
                Callback (start (buffers video0 ! unat (buf_index (o_buf (filled 1 77)))))
                         (unat (buf_bytesused (o_buf (filled 1 77)))),
                Sys (Ioctl (fd video0) VIDIOC_QBUF (Arg_buffer (o_buf (filled 1 77)))) quiet]\<rparr>)"
    by (rule poll_survives_interruptions [OF i, THEN conjunct2, THEN conjunct2, rule_format])
       (simp add: quiet_def filled_def video0_def note_frame_def capture_buffer_def)
  then show ?thesis
    by (simp add: quiet_def failing_def filled_def video0_def scripted_def capture_buffer_def)
qed


text \<open>
  Claim C8. When the wait reports readiness and \<^verbatim>\<open>VIDIOC_DQBUF\<close> (after the retries of
  \<^verbatim>\<open>xioctl\<close>) fails with \<^verbatim>\<open>EAGAIN\<close>, \<^verbatim>\<open>poll\<close> goes on exactly as a call of \<^verbatim>\<open>poll\<close>
  that starts at the wait: no failure and no callback for this attempt. A failure of
  the dequeue with any other \<^verbatim>\<open>errno\<close> makes \<^verbatim>\<open>poll\<close> throw \<^verbatim>\<open>VIDIOC_DQBUF\<close>.
\<close>

theorem poll_dequeue_try_again:
  assumes "ret sel \<noteq> - 1" "ret sel \<noteq> 0"
    and "list_all interrupted ints" "ret dq < 0" "err dq \<noteq> EINTR"
  shows "poll sd f (w\<lparr>replies := sel # ints @ dq # rest\<rparr>) s =
     (let w' = w\<lparr>replies := rest, errno := err dq,
                 trace := trace w @ Sys (Select (fd sd + 1) [fd sd] 2 0) sel #
                   map (Sys (Ioctl (fd sd) VIDIOC_DQBUF (Arg_buffer (capture_buffer 0)))) (ints @ [dq])\<rparr>
      in if err dq = EAGAIN then poll sd f w' s
         else Some (Inl (Runtime_error ''VIDIOC_DQBUF''), w'))"
proof -
  let ?w0 = "w\<lparr>replies := sel # ints @ dq # rest\<rparr>"
  let ?w1 = "?w0\<lparr>replies := ints @ dq # rest, errno := err sel,
                 trace := trace ?w0 @ [Sys (Select (fd sd + 1) [fd sd] 2 0) sel]\<rparr>"
  have s1: "sys (Select (fd sd + 1) [fd sd] 2 0) ?w0 = Some (sel, ?w1)"
    by (simp add: sys_Cons)
  have "\<not> interrupted dq"
    using assms(5) by (simp add: interrupted_def)
  with assms(3) have s2: "xioctl (fd sd) VIDIOC_DQBUF (Arg_buffer (capture_buffer 0)) ?w1 =
     Some (dq, ?w1\<lparr>replies := rest, errno := err dq,
                 trace := trace ?w1 @
                   map (Sys (Ioctl (fd sd) VIDIOC_DQBUF (Arg_buffer (capture_buffer 0)))) (ints @ [dq])\<rparr>)"
    by (intro xioctl_interrupted) simp_all
  from s2 have "xioctl (fd sd) VIDIOC_DQBUF (Arg_buffer (capture_buffer 0))
       (w\<lparr>replies := ints @ dq # rest, errno := err sel,
          trace := trace w @ [Sys (Select (fd sd + 1) [fd sd] 2 0) sel]\<rparr>) =
     Some (dq, w\<lparr>replies := rest, errno := err dq,
                 trace := trace w @ Sys (Select (fd sd + 1) [fd sd] 2 0) sel #
                   map (Sys (Ioctl (fd sd) VIDIOC_DQBUF (Arg_buffer (capture_buffer 0)))) (ints @ [dq])\<rparr>)"
    by simp
  with assms(1,2,4) show ?thesis
    by (simp add: poll.simps [of sd f ?w0 s] sys_Cons Let_def)
qed


theorem poll_dequeue_try_again_witness:
  "\<exists>w'. poll video0 note_frame
          (scripted [quiet\<lparr>ret := 1\<rparr>, failing EAGAIN, quiet\<lparr>ret := 1\<rparr>, filled 1 77, quiet]) [] =
        Some (Inr [(8192, 77)], w') \<and>
        handoffs (trace w') =
          [Dequeued ((capture_buffer 1)\<lparr>buf_bytesused := 77\<rparr>), Called 8192 77,
           Queued ((capture_buffer 1)\<lparr>buf_bytesused := 77\<rparr>)]"
proof -
  let ?rest = "[quiet\<lparr>ret := 1\<rparr>, filled 1 77, quiet]"
  let ?w1 = "(scripted [])\<lparr>replies := ?rest, errno := err (failing EAGAIN),
      trace := trace (scripted []) @ Sys (Select (fd video0 + 1) [fd video0] 2 0) (quiet\<lparr>ret := 1\<rparr>) #
        map (Sys (Ioctl (fd video0) VIDIOC_DQBUF (Arg_buffer (capture_buffer 0))))
          ([] @ [failing EAGAIN])\<rparr>"
  have "poll video0 note_frame
          ((scripted [])\<lparr>replies := quiet\<lparr>ret := 1\<rparr> # [] @ failing EAGAIN # ?rest\<rparr>) [] =
        poll video0 note_frame ?w1 []"
    using poll_dequeue_try_again [where sel = "quiet\<lparr>ret := 1\<rparr>" and ints = "[]"
        and dq = "failing EAGAIN" and sd = video0 and f = note_frame and w = "scripted []"
        and rest = ?rest and s = "[]"]
    by (simp add: quiet_def failing_def EINTR_def EAGAIN_def)
  then show ?thesis
    by (simp add: poll.simps xioctl.simps demo_defs handoffs_def)
qed

section \<open>Properties of the defensive minimums\<close>

lemma paranoia_bytesperline:
  "pix_bytesperline (buggy_driver_paranoia p) = max (pix_bytesperline p) (pix_width p * 2)"
  by (auto simp: buggy_driver_paranoia_def Let_def max_def)

lemma paranoia_sizeimage:
  "pix_sizeimage (buggy_driver_paranoia p) =
     max (pix_sizeimage p) (pix_bytesperline (buggy_driver_paranoia p) * pix_height p)"
  by (auto simp: buggy_driver_paranoia_def Let_def max_def)

lemma paranoia_keeps:
  "pix_width (buggy_driver_paranoia p) = pix_width p"
  "pix_height (buggy_driver_paranoia p) = pix_height p"
  "pix_pixelformat (buggy_driver_paranoia p) = pix_pixelformat p"
  "pix_field (buggy_driver_paranoia p) = pix_field p"
  by (simp_all add: buggy_driver_paranoia_def Let_def)

text \<open>
  Claim C3, as amended. In 32-bit arithmetic the stride after the step is the larger of
  the reported stride and \<open>width * 2\<close>, and the image size after it the larger of the
  reported size and stride times height; width and height are not changed. When
  \<open>2 * width\<close> and the product of the resulting stride with \<open>height\<close> fit in 32 bits,
  these are the numbers themselves: both minimums hold, a smaller value is raised to
  exactly the minimum and a value at or above it is kept.
\<close>

theorem paranoia_minimums:
  "pix_bytesperline (buggy_driver_paranoia p) = max (pix_bytesperline p) (pix_width p * 2) \<and>
   pix_sizeimage (buggy_driver_paranoia p) =
     max (pix_sizeimage p) (pix_bytesperline (buggy_driver_paranoia p) * pix_height p) \<and>
   pix_width (buggy_driver_paranoia p) = pix_width p \<and>
   pix_height (buggy_driver_paranoia p) = pix_height p \<and>
   (2 * unat (pix_width p) < 2 ^ 32 \<and>
    max (unat (pix_bytesperline p)) (2 * unat (pix_width p)) * unat (pix_height p) < 2 ^ 32 \<longrightarrow>
      unat (pix_bytesperline (buggy_driver_paranoia p)) =
        max (unat (pix_bytesperline p)) (2 * unat (pix_width p)) \<and>
      unat (pix_sizeimage (buggy_driver_paranoia p)) =
        max (unat (pix_sizeimage p))
            (unat (pix_bytesperline (buggy_driver_paranoia p)) * unat (pix_height p)) \<and>
      2 * unat (pix_width p) \<le> unat (pix_bytesperline (buggy_driver_paranoia p)) \<and>
      unat (pix_bytesperline (buggy_driver_paranoia p)) * unat (pix_height p)
        \<le> unat (pix_sizeimage (buggy_driver_paranoia p)))"
proof (intro conjI impI)
  let ?q = "buggy_driver_paranoia p"
  show "pix_bytesperline ?q = max (pix_bytesperline p) (pix_width p * 2)"
    by (rule paranoia_bytesperline)
  show sz: "pix_sizeimage ?q = max (pix_sizeimage p) (pix_bytesperline ?q * pix_height p)"
    by (rule paranoia_sizeimage)
  show "pix_width ?q = pix_width p" "pix_height ?q = pix_height p"
    by (simp_all add: paranoia_keeps)
  assume fits: "2 * unat (pix_width p) < 2 ^ 32 \<and>
    max (unat (pix_bytesperline p)) (2 * unat (pix_width p)) * unat (pix_height p) < 2 ^ 32"
  have w2: "unat (pix_width p * 2) = 2 * unat (pix_width p)"
    using fits by (simp add: unat_word_ariths)
  show b: "unat (pix_bytesperline ?q) = max (unat (pix_bytesperline p)) (2 * unat (pix_width p))"
    using w2 by (simp add: paranoia_bytesperline max_def word_le_nat_alt)
  have m: "unat (pix_bytesperline ?q * pix_height p) = unat (pix_bytesperline ?q) * unat (pix_height p)"
    using fits b by (simp add: unat_word_ariths)
  show s: "unat (pix_sizeimage ?q) =
      max (unat (pix_sizeimage p)) (unat (pix_bytesperline ?q) * unat (pix_height p))"
    using sz m by (simp add: max_def word_le_nat_alt)
  show "2 * unat (pix_width p) \<le> unat (pix_bytesperline ?q)"
    using b by simp
  show "unat (pix_bytesperline ?q) * unat (pix_height p) \<le> unat (pix_sizeimage ?q)"
    using s by simp
qed

theorem paranoia_minimums_witness:
  "unat (pix_bytesperline (buggy_driver_paranoia vga)) = 1280 \<and>
   unat (pix_sizeimage (buggy_driver_paranoia vga)) = 614400 \<and>
   unat (pix_bytesperline (buggy_driver_paranoia (vga\<lparr>pix_bytesperline := 2048, pix_sizeimage := 1000000\<rparr>))) = 2048 \<and>
   unat (pix_sizeimage (buggy_driver_paranoia (vga\<lparr>pix_bytesperline := 2048, pix_sizeimage := 1000000\<rparr>))) = 1000000"
proof -
  note fits = paranoia_minimums [THEN conjunct2, THEN conjunct2, THEN conjunct2, THEN conjunct2,
    rule_format]
  have a: "unat (pix_bytesperline (buggy_driver_paranoia vga)) = 1280"
    "unat (pix_sizeimage (buggy_driver_paranoia vga)) = 614400"
    using fits [of vga] by (simp_all add: vga_def)
  let ?v = "vga\<lparr>pix_bytesperline := 2048, pix_sizeimage := 1000000\<rparr>"
  have b: "unat (pix_bytesperline (buggy_driver_paranoia ?v)) = 2048"
    "unat (pix_sizeimage (buggy_driver_paranoia ?v)) = 1000000"
    using fits [of ?v] by (simp_all add: vga_def)
  from a b show ?thesis by simp
qed

text \<open>
  Claim C3 as stated fails where the product wraps: for a reported width of \<open>2 ^ 31\<close> the
  minimum \<open>width * 2\<close> is 0 in 32 bits, the reported stride 0 is kept, and 0 is below
  \<open>2 * width\<close>.
\<close>

theorem paranoia_wraps:
  "\<not> 2 * unat (pix_width (vga\<lparr>pix_width := 2147483648\<rparr>))
      \<le> unat (pix_bytesperline (buggy_driver_paranoia (vga\<lparr>pix_width := 2147483648\<rparr>)))"
  by (simp add: vga_def buggy_driver_paranoia_def)


section \<open>Properties of the callbacks\<close>

lemma readable_iff: "readable mem a n \<longleftrightarrow> (\<forall>i<n. mem (a + i) \<noteq> None)"
  by (auto simp: readable_def list_all_iff)

lemma readable_split:
  "readable mem a (m + n) \<longleftrightarrow> readable mem a m \<and> readable mem (a + m) n"
proof
  assume "readable mem a (m + n)"
  then show "readable mem a m \<and> readable mem (a + m) n"
    by (auto simp: readable_iff add.assoc)
next
  assume r: "readable mem a m \<and> readable mem (a + m) n"
  show "readable mem a (m + n)"
    unfolding readable_iff
  proof (intro allI impI)
    fix i assume "i < m + n"
    show "mem (a + i) \<noteq> None"
    proof (cases "i < m")
      case True
      with r show ?thesis by (simp add: readable_iff)
    next
      case False
      with \<open>i < m + n\<close> have "i - m < n" by simp
      with r have "mem (a + m + (i - m)) \<noteq> None" by (simp add: readable_iff)
      with False show ?thesis by simp
    qed
  qed
qed

lemma dev1_loop_closed:
  assumes "i \<le> depth_pixels" "length (z a) = depth_pixels" "length (y a) = depth_pixels"
  shows "dev1_loop mem data i a =
     (if readable mem (data + 3 * i) (3 * (depth_pixels - i)) then
        Inr (a\<lparr>z := take i (z a) @ map (in_z mem data) [i..<depth_pixels],
               y := take i (y a) @ map (in_y mem data) [i..<depth_pixels]\<rparr>)
      else Inl Out_of_bounds)"
  using assms
proof (induction mem data i a rule: dev1_loop.induct)
  case (1 mem data i a)
  show ?case
  proof (cases "i < depth_pixels")
    case False
    with "1.prems" have i: "i = depth_pixels" by simp
    have "dev1_loop mem data i a = Inr a"
      using False by (simp add: dev1_loop.simps [of mem data i a])
    with i "1.prems" show ?thesis
      by (simp add: readable_def)
  next
    case lt: True
    have sp: "readable mem (data + 3 * i) (3 * (depth_pixels - i)) \<longleftrightarrow>
          readable mem (data + 3 * i) 3 \<and>
          readable mem (data + 3 * (i + 1)) (3 * (depth_pixels - (i + 1)))"
    proof -
      from lt have "3 * (depth_pixels - i) = 3 + 3 * (depth_pixels - (i + 1))" by simp
      then show ?thesis
        by (simp only: readable_split) (simp add: algebra_simps)
    qed
    show ?thesis
    proof (cases "readable mem (data + 3 * i) 3")
      case False
      with lt sp show ?thesis
        by (simp add: dev1_loop.simps [of mem data i a])
    next
      case rd: True
      let ?a' = "a\<lparr>z := (z a)[i := in_z mem data i], y := (y a)[i := in_y mem data i]\<rparr>"
      from lt "1.prems" have inb: "i < length (z a)" "i < length (y a)" by simp_all
      have step: "dev1_loop mem data i a = dev1_loop mem data (i + 1) ?a'"
        using lt rd inb by (simp add: dev1_loop.simps [of mem data i a])
      have ih: "dev1_loop mem data (i + 1) ?a' =
        (if readable mem (data + 3 * (i + 1)) (3 * (depth_pixels - (i + 1))) then
           Inr (?a'\<lparr>z := take (i + 1) (z ?a') @ map (in_z mem data) [i + 1..<depth_pixels],
                  y := take (i + 1) (y ?a') @ map (in_y mem data) [i + 1..<depth_pixels]\<rparr>)
         else Inl Out_of_bounds)"
        using lt rd inb "1.prems" by (intro "1.IH") simp_all
      have tz: "take (i + 1) ((z a)[i := in_z mem data i]) @ map (in_z mem data) [i + 1..<depth_pixels]
          = take i (z a) @ map (in_z mem data) [i..<depth_pixels]"
        using lt inb by (simp add: take_Suc_conv_app_nth upt_conv_Cons)
      have ty: "take (i + 1) ((y a)[i := in_y mem data i]) @ map (in_y mem data) [i + 1..<depth_pixels]
          = take i (y a) @ map (in_y mem data) [i..<depth_pixels]"
        using lt inb by (simp add: take_Suc_conv_app_nth upt_conv_Cons)
      show ?thesis
        using step ih sp rd tz ty by simp
    qed
  qed
qed


lemma holds_iff: "holds mem a bs \<longleftrightarrow> (\<forall>i<length bs. mem (a + i) = Some (bs ! i))"
  by (auto simp: holds_def list_all_iff)

lemma holds_readable: "holds mem a bs \<Longrightarrow> n \<le> length bs \<Longrightarrow> readable mem a n"
  by (auto simp: holds_iff readable_iff)

lemma holds_bytes_at: "holds mem a bs \<Longrightarrow> n \<le> length bs \<Longrightarrow> bytes_at mem a n = take n bs"
  by (auto simp: holds_iff bytes_at_def list_eq_iff_nth_eq)

lemma z16_join: "word_cat (ucast (drop_bit 8 d) :: u8) (ucast d :: u8) = (d :: u16)"
  by (rule bit_word_eqI) (auto simp: bit_simps)

lemma length_packed: "length (concat (map z16y8_bytes px)) = 3 * length px"
  by (induction px) (simp_all add: z16y8_bytes_def)

lemma packed_nth:
  "i < length px \<Longrightarrow> k < 3 \<Longrightarrow>
   concat (map z16y8_bytes px) ! (3 * i + k) = z16y8_bytes (px ! i) ! k"
proof (induction px arbitrary: i)
  case Nil
  then show ?case by simp
next
  case (Cons p px)
  show ?case
  proof (cases i)
    case 0
    have "length (z16y8_bytes p) = 3" by (simp add: z16y8_bytes_def)
    with 0 Cons.prems show ?thesis
      by (simp add: nth_append)
  next
    case (Suc j)
    then have "3 * i + k = 3 + (3 * j + k)" by simp
    moreover have "length (z16y8_bytes p) = 3" by (simp add: z16y8_bytes_def)
    then have "(z16y8_bytes p @ concat (map z16y8_bytes px)) ! (3 + (3 * j + k)) =
       concat (map z16y8_bytes px) ! (3 * j + k)"
      by (simp add: nth_append)
    ultimately show ?thesis
      using Cons.IH [of j] Cons.prems Suc by (simp add: add.assoc)
  qed
qed

lemma holds_in_z:
  assumes "holds mem data (concat (map z16y8_bytes px))" "i < length px"
  shows "in_z mem data i = fst (px ! i)" "in_y mem data i = snd (px ! i)"
proof -
  have m: "mem (data + (3 * i + k)) = Some (z16y8_bytes (px ! i) ! k)" if "k < 3" for k
  proof -
    from that assms(2) have "3 * i + k < length (concat (map z16y8_bytes px))"
      by (simp add: length_packed)
    with assms(1) have "mem (data + (3 * i + k)) = Some (concat (map z16y8_bytes px) ! (3 * i + k))"
      by (simp add: holds_iff)
    with that assms(2) show ?thesis by (simp add: packed_nth)
  qed
  from m [of 0] m [of 1] show "in_z mem data i = fst (px ! i)"
    by (simp add: in_z_def z16y8_bytes_def z16_join add.assoc)
  from m [of 2] show "in_y mem data i = snd (px ! i)"
    by (simp add: in_y_def z16y8_bytes_def add.assoc)
qed

lemma dev1_callback_closed:
  assumes "length (z a) = depth_pixels" "length (y a) = depth_pixels"
  shows "dev1_callback mem data sz a =
     (if readable mem data (3 * depth_pixels) then
        Inr (a\<lparr>z := map (in_z mem data) [0..<depth_pixels],
               y := map (in_y mem data) [0..<depth_pixels],
               printed := printed a @ [(sz, depth_pixels * 3)]\<rparr>)
      else Inl Out_of_bounds)"
  using dev1_loop_closed [of 0 a mem data] assms
  by (simp add: dev1_callback_def)

lemma holds_region: "holds (region base bs) base bs"
  by (simp add: holds_iff region_def)

lemma blank_sizes:
  "length (z blank) = depth_pixels" "length (y blank) = depth_pixels"
  "length (yuy2 blank) = color_bytes"
  by (simp_all add: blank_def)

text \<open>
  Claim C2, as amended. When the memory at \<^verbatim>\<open>data\<close> holds \<open>320 * 240\<close> packed pixels (the
  number of pixels is this constant of the loop, whatever the input is), the callback
  of the depth device puts the depth of pixel \<open>i\<close> at index \<open>i\<close> of \<^verbatim>\<open>z\<close> and its
  intensity at index \<open>i\<close> of \<^verbatim>\<open>y\<close>, for every \<open>i\<close>. The witness is such an input whose
  first two pixels have depths 100 and 4000 and intensities 10 and 250.
\<close>

theorem dev1_decodes_planes:
  assumes "length px = depth_pixels"
    and "holds mem data (concat (map z16y8_bytes px))"
    and "length (z a) = depth_pixels" "length (y a) = depth_pixels"
  shows "dev1_callback mem data sz a =
     Inr (a\<lparr>z := map fst px, y := map snd px,
            printed := printed a @ [(sz, depth_pixels * 3)]\<rparr>)"
proof -
  have r: "readable mem data (3 * depth_pixels)"
    using assms(1) by (intro holds_readable [OF assms(2)]) (simp add: length_packed)
  have zs: "map (in_z mem data) [0..<depth_pixels] = map fst px"
    using assms(1,2) by (auto simp: list_eq_iff_nth_eq holds_in_z)
  have ys: "map (in_y mem data) [0..<depth_pixels] = map snd px"
    using assms(1,2) by (auto simp: list_eq_iff_nth_eq holds_in_z)
  show ?thesis
    using r zs ys assms(3,4) by (simp add: dev1_callback_closed)
qed

theorem dev1_decodes_planes_witness:
  "take 6 (concat (map z16y8_bytes sample)) = [100, 0, 10, 160, 15, 250] \<and>
   (\<exists>a'. dev1_callback (region 4096 (concat (map z16y8_bytes sample))) 4096 230400 blank = Inr a' \<and>
         take 2 (z a') = [100, 4000] \<and> take 2 (y a') = [10, 250])"
proof -
  have l: "length sample = depth_pixels"
    by (simp add: sample_def depth_pixels_def)
  have b: "take 6 (concat (map z16y8_bytes sample)) = [100, 0, 10, 160, 15, 250]"
    by (simp add: sample_def z16y8_bytes_def drop_bit_eq_div)
  have "dev1_callback (region 4096 (concat (map z16y8_bytes sample))) 4096 230400 blank =
     Inr (blank\<lparr>z := map fst sample, y := map snd sample,
            printed := printed blank @ [(230400, depth_pixels * 3)]\<rparr>)"
    using l holds_region blank_sizes(1,2) by (rule dev1_decodes_planes)
  moreover have "take 2 (map fst sample) = [100, 4000]" "take 2 (map snd sample) = [10, 250]"
    by (simp_all add: sample_def)
  ultimately show ?thesis using b by simp
qed

text \<open>
  Claim C2 as stated fails for its input of 2 pixels: the loop goes on to the third
  pixel and reads past the 6 bytes of the input.
\<close>

theorem dev1_two_pixels_overrun:
  "concat (map z16y8_bytes [(100, 10), (4000, 250)]) = [100, 0, 10, 160, 15, 250] \<and>
   dev1_callback (region 4096 [100, 0, 10, 160, 15, 250]) 4096 6 blank = Inl Out_of_bounds"
proof -
  have b: "concat (map z16y8_bytes [(100, 10), (4000, 250)]) = [100, 0, 10, 160, 15, 250]"
    by (simp add: z16y8_bytes_def drop_bit_eq_div)
  have "6 < 3 * depth_pixels" by (simp add: depth_pixels_def)
  then have "\<not> readable (region 4096 [100, 0, 10, 160, 15, 250]) 4096 (3 * depth_pixels)"
    unfolding readable_iff by (auto intro!: exI [of _ 6] simp: region_def)
  with dev1_callback_closed [OF blank_sizes(1,2), of "region 4096 [100, 0, 10, 160, 15, 250]" 4096 6]
  have "dev1_callback (region 4096 [100, 0, 10, 160, 15, 250]) 4096 6 blank = Inl Out_of_bounds"
    by simp
  with b show ?thesis by simp
qed

text \<open>
  Claim C10. The callback of the depth device does not look at \<^verbatim>\<open>size\<close> (it only prints
  it): it reads the \<open>230400\<close> bytes from \<^verbatim>\<open>data\<close> on, whatever \<^verbatim>\<open>size\<close> is, and overwrites
  all \<open>76800\<close> entries of both planes; where one of these bytes cannot be read the
  behaviour is undefined. The witness has \<^verbatim>\<open>size = 6\<close>.
\<close>

theorem dev1_ignores_size:
  assumes "length (z a) = depth_pixels" "length (y a) = depth_pixels"
  shows "depth_pixels = 76800 \<and> 3 * depth_pixels = 230400 \<and>
     dev1_callback mem data sz a =
     (if readable mem data 230400 then
        Inr (a\<lparr>z := map (in_z mem data) [0..<depth_pixels],
               y := map (in_y mem data) [0..<depth_pixels],
               printed := printed a @ [(sz, 230400)]\<rparr>)
      else Inl Out_of_bounds)"
proof -
  have n: "depth_pixels = 76800" "3 * depth_pixels = 230400" "depth_pixels * 3 = 230400"
    by (simp_all add: depth_pixels_def)
  from dev1_callback_closed [OF assms, of mem data sz] show ?thesis
    unfolding n(2,3) using n(1,2) by simp
qed

theorem dev1_ignores_size_witness:
  "(\<exists>a'. dev1_callback (steady 1) 4096 6 blank = Inr a' \<and>
         length (z a') = 76800 \<and> z a' ! 76799 = 257 \<and>
         length (y a') = 76800 \<and> y a' ! 76799 = 1 \<and> printed a' = [(6, 230400)]) \<and>
   dev1_callback (region 4096 [100, 0, 10, 160, 15, 250]) 4096 6 blank = Inl Out_of_bounds"
proof -
  have r: "readable (steady 1) 4096 230400"
    by (simp add: readable_iff steady_def)
  have n: "\<not> readable (region 4096 [100, 0, 10, 160, 15, 250]) 4096 230400"
    unfolding readable_iff by (auto intro!: exI [of _ 6] simp: region_def)
  have d: "depth_pixels = 76800" by (simp add: depth_pixels_def)
  have zv: "in_z (steady 1) 4096 76799 = 257" "in_y (steady 1) 4096 76799 = 1"
    by (simp_all add: in_z_def in_y_def steady_def word_cat_eq)
  from dev1_ignores_size [OF blank_sizes(1,2), of "steady 1" 4096 6] r
  have 1: "dev1_callback (steady 1) 4096 6 blank =
        Inr (blank\<lparr>z := map (in_z (steady 1) 4096) [0..<depth_pixels],
               y := map (in_y (steady 1) 4096) [0..<depth_pixels],
               printed := printed blank @ [(6, 230400)]\<rparr>)"
    by simp
  from dev1_ignores_size [OF blank_sizes(1,2), of "region 4096 [100, 0, 10, 160, 15, 250]" 4096 6] n
  have 2: "dev1_callback (region 4096 [100, 0, 10, 160, 15, 250]) 4096 6 blank = Inl Out_of_bounds"
    by simp
  have "(map (in_z (steady 1) 4096) [0..<depth_pixels]) ! 76799 = 257"
    "(map (in_y (steady 1) 4096) [0..<depth_pixels]) ! 76799 = 1"
    using zv by (simp_all add: d)
  with 1 2 show ?thesis
    by (simp add: blank_def d [symmetric])
qed

text \<open>
  Claim C7, as amended. For an input of \<open>N\<close> bytes with \<open>N\<close> at most \<open>640 * 480 * 2\<close>, the
  callback of the color device leaves the input as the first \<open>N\<close> bytes of \<^verbatim>\<open>yuy2\<close> and
  keeps the bytes after them. For a larger \<open>N\<close> the copy runs past the end of \<^verbatim>\<open>yuy2\<close>.
\<close>

theorem dev0_passes_through:
  assumes "length (yuy2 a) = color_bytes"
  shows "color_bytes = 614400 \<and>
     (length bs = sz \<and> sz \<le> color_bytes \<and> holds mem data bs \<longrightarrow>
        (\<exists>a'. dev0_callback mem data sz a = Inr a' \<and>
           take sz (yuy2 a') = bs \<and> drop sz (yuy2 a') = drop sz (yuy2 a) \<and>
           length (yuy2 a') = color_bytes \<and> z a' = z a \<and> y a' = y a)) \<and>
     (color_bytes < sz \<longrightarrow> dev0_callback mem data sz a = Inl Out_of_bounds)"
proof (intro conjI impI)
  show "color_bytes = 614400" by (simp add: color_bytes_def)
next
  assume h: "length bs = sz \<and> sz \<le> color_bytes \<and> holds mem data bs"
  then have hb: "holds mem data bs" and l: "sz \<le> length bs" and l': "length bs = sz"
    by simp_all
  have r: "readable mem data sz" using hb l by (rule holds_readable)
  have b: "bytes_at mem data sz = bs" using holds_bytes_at [OF hb l] l' by simp
  from r b h assms show "\<exists>a'. dev0_callback mem data sz a = Inr a' \<and>
           take sz (yuy2 a') = bs \<and> drop sz (yuy2 a') = drop sz (yuy2 a) \<and>
           length (yuy2 a') = color_bytes \<and> z a' = z a \<and> y a' = y a"
    by (simp add: dev0_callback_def)
next
  assume "color_bytes < sz"
  with assms show "dev0_callback mem data sz a = Inl Out_of_bounds"
    by (simp add: dev0_callback_def)
qed

theorem dev0_passes_through_witness:
  "\<exists>a'. dev0_callback (region 4096 [1, 2, 3]) 4096 3 blank = Inr a' \<and>
        take 3 (yuy2 a') = [1, 2, 3] \<and> drop 3 (yuy2 a') = drop 3 (yuy2 blank)"
proof -
  have "length [1, 2, 3 :: u8] = 3 \<and> 3 \<le> color_bytes \<and> holds (region 4096 [1, 2, 3]) 4096 [1, 2, 3]"
    by (simp add: color_bytes_def holds_region)
  from dev0_passes_through [OF blank_sizes(3), THEN conjunct2, THEN conjunct1, rule_format, OF this]
  show ?thesis by auto
qed

text \<open>
  Claim C7 as stated fails for an input longer than the destination: with \<open>N = 614401\<close>
  the \<^verbatim>\<open>memcpy\<close> writes past the end of \<^verbatim>\<open>yuy2\<close>.
\<close>

theorem dev0_overruns:
  "color_bytes = 614400 \<and>
   dev0_callback (steady 0) 4096 614401 blank = Inl Out_of_bounds"
proof -
  have c: "color_bytes = 614400" by (simp add: color_bytes_def)
  have "\<not> 614401 \<le> length (yuy2 blank)"
    unfolding blank_sizes c by simp
  then show ?thesis
    using c by (simp add: dev0_callback_def)
qed


section \<open>Properties of the session lifecycle\<close>

lemma keeps_sys: "keeps A P \<Longrightarrow> A c \<Longrightarrow> sys c w = Some (rp, w') \<Longrightarrow> P w \<Longrightarrow> P w'"
  unfolding keeps_def by blast

lemma keeps_xioctl: "keeps A P \<Longrightarrow> xioctl fh rq a w = Some (rp, w') \<Longrightarrow> P w \<Longrightarrow> P w'"
  unfolding keeps_def by blast

lemma keeps_stderr: "keeps A P \<Longrightarrow> P w \<Longrightarrow> P (emit (Stderr s) w)"
  unfolding keeps_def by blast

lemma keeps_callback: "keeps A P \<Longrightarrow> P w \<Longrightarrow> P (emit (Callback a n) w)"
  unfolding keeps_def by blast

lemma io_bind_cases:
  assumes "io_bind m k w = Some (r, w')"
  obtains e where "m w = Some (Inl e, w')" "r = Inl e"
  | x v where "m w = Some (Inr x, v)" "k x v = Some (r, w')"
  using assms by (auto simp: io_bind_def split: option.splits sum.splits)

lemma open_device_keeps:
  assumes "keeps A P" "A (Stat name)" "A (Open name (O_RDWR OR O_NONBLOCK))"
    and "open_device name w = Some (r, w')" "P w"
  shows "P w'"
proof -
  from assms(4) obtain st w1 where s1: "sys (Stat name) w = Some (st, w1)"
    by (auto simp: open_device_def split: option.splits)
  have p1: "P w1" using keeps_sys [OF assms(1,2) s1 assms(5)] .
  show ?thesis
  proof (cases "ret st < 0 \<or> \<not> S_ISCHR (o_mode st)")
    case True
    with assms(4) s1 have "w' = emit (Stderr ''Cannot identify'') w1 \<or> w' = w1"
      by (auto simp: open_device_def io_throw_def split: if_splits)
    with p1 keeps_stderr [OF assms(1) p1] show ?thesis by auto
  next
    case False
    with assms(4) s1 obtain op w2 where s2: "sys (Open name (O_RDWR OR O_NONBLOCK)) w1 = Some (op, w2)"
      by (auto simp: open_device_def split: option.splits)
    have p2: "P w2" using keeps_sys [OF assms(1,3) s2 p1] .
    from False assms(4) s1 s2 have "w' = emit (Stderr ''Cannot open'') w2 \<or> w' = w2"
      by (auto simp: open_device_def io_throw_def io_return_def split: if_splits)
    with p2 keeps_stderr [OF assms(1) p2] show ?thesis by auto
  qed
qed

lemma query_capabilities_keeps:
  assumes "keeps A P" "query_capabilities name fh w = Some (r, w')" "P w"
  shows "P w'"
proof -
  from assms(2) obtain cap w1 where
    s1: "xioctl fh VIDIOC_QUERYCAP Arg_capability w = Some (cap, w1)"
    by (auto simp: query_capabilities_def split: option.splits)
  with assms(2) have "w' = w1"
    by (auto simp: query_capabilities_def io_throw_def io_return_def split: if_splits)
  with keeps_xioctl [OF assms(1) s1 assms(3)] show ?thesis by simp
qed

lemma reset_crop_keeps:
  assumes "keeps A P" "reset_crop fh w = Some (r, w')" "P w"
  shows "P w'"
proof -
  from assms(2) obtain cc w1 where
    s1: "xioctl fh VIDIOC_CROPCAP (Arg_cropcap V4L2_BUF_TYPE_VIDEO_CAPTURE) w = Some (cc, w1)"
    by (auto simp: reset_crop_def split: option.splits)
  have p1: "P w1" using keeps_xioctl [OF assms(1) s1 assms(3)] .
  show ?thesis
  proof (cases "ret cc = 0")
    case True
    with assms(2) s1 obtain cr where
      "xioctl fh VIDIOC_S_CROP (Arg_crop V4L2_BUF_TYPE_VIDEO_CAPTURE (o_defrect cc)) w1 = Some (cr, w')"
      by (auto simp: reset_crop_def io_return_def split: option.splits)
    from keeps_xioctl [OF assms(1) this p1] show ?thesis .
  next
    case False
    with assms(2) s1 have "w' = w1"
      by (auto simp: reset_crop_def io_return_def)
    with p1 show ?thesis by simp
  qed
qed

lemma negotiate_format_keeps:
  assumes "keeps A P" "negotiate_format fh force w = Some (r, w')" "P w"
  shows "P w'"
proof -
  from assms(2) obtain rq a fmt where
    "xioctl fh rq a w = Some (fmt, w')"
    by (auto simp: negotiate_format_def io_throw_def io_return_def split: option.splits if_splits)
  from keeps_xioctl [OF assms(1) this assms(3)] show ?thesis .
qed

lemma request_buffers_keeps:
  assumes "keeps A P" "request_buffers name fh w = Some (r, w')" "P w"
  shows "P w'"
proof -
  from assms(2) obtain req where
    "xioctl fh VIDIOC_REQBUFS (Arg_requestbuffers four_buffers) w = Some (req, w')"
    by (auto simp: request_buffers_def io_throw_def io_return_def split: option.splits if_splits)
  from keeps_xioctl [OF assms(1) this assms(3)] show ?thesis .
qed

lemma stream_on_keeps:
  assumes "keeps A P" "stream_on fh w = Some (r, w')" "P w"
  shows "P w'"
proof -
  from assms(2) obtain rp where
    "xioctl fh VIDIOC_STREAMON (Arg_buf_type V4L2_BUF_TYPE_VIDEO_CAPTURE) w = Some (rp, w')"
    by (auto simp: stream_on_def io_throw_def io_return_def split: option.splits if_splits)
  from keeps_xioctl [OF assms(1) this assms(3)] show ?thesis .
qed

lemma queue_buffers_keeps:
  assumes "keeps A P"
  shows "queue_buffers fh n i w = Some (r, w') \<Longrightarrow> P w \<Longrightarrow> P w'"
proof (induction fh n i w rule: queue_buffers.induct)
  case (1 fh n i w)
  show ?case
  proof (cases "i < n")
    case False
    with "1.prems" show ?thesis
      by (simp add: queue_buffers.simps [of fh n i w] io_return_def)
  next
    case True
    with "1.prems"(1) obtain buf w1 where
      s1: "xioctl fh VIDIOC_QBUF (Arg_buffer (capture_buffer (of_nat i))) w = Some (buf, w1)"
      by (auto simp: queue_buffers.simps [of fh n i w] split: option.splits)
    have p1: "P w1" using keeps_xioctl [OF assms s1 "1.prems"(2)] .
    show ?thesis
    proof (cases "ret buf < 0")
      case neg: True
      with True s1 "1.prems"(1) have "w' = w1"
        by (simp add: queue_buffers.simps [of fh n i w] io_throw_def)
      with p1 show ?thesis by simp
    next
      case False
      with True s1 "1.prems"(1) have "queue_buffers fh n (i + 1) w1 = Some (r, w')"
        by (simp add: queue_buffers.simps [of fh n i w])
      from "1.IH" [OF True s1 refl False this p1] show ?thesis .
    qed
  qed
qed

lemma map_buffers_keeps:
  assumes "keeps A P" "\<And>l pr fl f off. A (Mmap l pr fl f off)"
  shows "map_buffers fh bufs i w = Some (r, w') \<Longrightarrow> P w \<Longrightarrow> P w'"
proof (induction fh bufs i w rule: map_buffers.induct)
  case (1 fh bufs i w)
  show ?case
  proof (cases "i < length bufs")
    case False
    with "1.prems" show ?thesis
      by (simp add: map_buffers.simps [of fh bufs i w] io_return_def)
  next
    case True
    with "1.prems"(1) obtain buf w1 where
      s1: "xioctl fh VIDIOC_QUERYBUF (Arg_buffer (capture_buffer (of_nat i))) w = Some (buf, w1)"
      by (auto simp: map_buffers.simps [of fh bufs i w] split: option.splits)
    have p1: "P w1" using keeps_xioctl [OF assms(1) s1 "1.prems"(2)] .
    show ?thesis
    proof (cases "ret buf < 0")
      case neg: True
      with True s1 "1.prems"(1) have "w' = w1"
        by (simp add: map_buffers.simps [of fh bufs i w] io_throw_def)
      with p1 show ?thesis by simp
    next
      case ok: False
      with True s1 "1.prems"(1) obtain m w2 where
        s2: "sys (Mmap (unat (buf_length (o_buf buf))) (PROT_READ OR PROT_WRITE) MAP_SHARED fh
                           (unat (buf_offset (o_buf buf)))) w1 = Some (m, w2)"
        by (auto simp: map_buffers.simps [of fh bufs i w] split: option.splits)
      have p2: "P w2" using keeps_sys [OF assms(1) assms(2) s2 p1] .
      show ?thesis
      proof (cases "o_addr m = MAP_FAILED")
        case mf: True
        with ok True s1 s2 "1.prems"(1) have "w' = w2"
          by (simp add: map_buffers.simps [of fh bufs i w] io_throw_def)
        with p2 show ?thesis by simp
      next
        case False
        with ok True s1 s2 "1.prems"(1) have
          "map_buffers fh (bufs[i := \<lparr>start = o_addr m, length_b = unat (buf_length (o_buf buf))\<rparr>])
             (i + 1) w2 = Some (r, w')"
          by (simp add: map_buffers.simps [of fh bufs i w])
        from "1.IH" [OF True s1 refl ok s2 refl False this p2] show ?thesis .
      qed
    qed
  qed
qed

lemma start_streaming_keeps:
  assumes "keeps A P" "\<And>l pr fl f off. A (Mmap l pr fl f off)"
    and "start_streaming name fh count w = Some (r, w')" "P w"
  shows "P w'"
  using assms(3) unfolding start_streaming_def
proof (cases rule: io_bind_cases)
  case (1 e)
  from map_buffers_keeps [OF assms(1,2) 1(1) assms(4)] show ?thesis .
next
  case (2 bufs v)
  have pv: "P v" using map_buffers_keeps [OF assms(1,2) 2(1) assms(4)] .
  from 2(2) show ?thesis
  proof (cases rule: io_bind_cases)
    case (1 e)
    from queue_buffers_keeps [OF assms(1) 1(1) pv] show ?thesis .
  next
    case (2 u v2)
    have pv2: "P v2" using queue_buffers_keeps [OF assms(1) 2(1) pv] .
    from 2(2) show ?thesis
    proof (cases rule: io_bind_cases)
      case (1 e)
      from stream_on_keeps [OF assms(1) 1(1) pv2] show ?thesis .
    next
      case (2 u2 v3)
      have "P v3" using stream_on_keeps [OF assms(1) 2(1) pv2] .
      with 2(2) show ?thesis by (simp add: io_return_def)
    qed
  qed
qed

lemma negotiate_keeps:
  assumes "keeps A P" "\<And>s. A (Stat s)" "\<And>s fl. A (Open s fl)"
    and "negotiate name force w = Some (r, w')" "P w"
  shows "P w'"
  using assms(4) unfolding negotiate_def
proof (cases rule: io_bind_cases)
  case (1 e)
  from open_device_keeps [OF assms(1) assms(2) assms(3) 1(1) assms(5)] show ?thesis .
next
  case (2 fh v)
  have pv: "P v" using open_device_keeps [OF assms(1) assms(2) assms(3) 2(1) assms(5)] .
  from 2(2) show ?thesis
  proof (cases rule: io_bind_cases)
    case (1 e)
    from query_capabilities_keeps [OF assms(1) 1(1) pv] show ?thesis .
  next
    case (2 u v2)
    have pv2: "P v2" using query_capabilities_keeps [OF assms(1) 2(1) pv] .
    from 2(2) show ?thesis
    proof (cases rule: io_bind_cases)
      case (1 e)
      from reset_crop_keeps [OF assms(1) 1(1) pv2] show ?thesis .
    next
      case (2 u2 v3)
      have pv3: "P v3" using reset_crop_keeps [OF assms(1) 2(1) pv2] .
      from 2(2) show ?thesis
      proof (cases rule: io_bind_cases)
        case (1 e)
        from negotiate_format_keeps [OF assms(1) 1(1) pv3] show ?thesis .
      next
        case (2 pix v4)
        have "P v4" using negotiate_format_keeps [OF assms(1) 2(1) pv3] .
        with 2(2) show ?thesis by (simp add: io_return_def)
      qed
    qed
  qed
qed

lemma subdevice_ctor_keeps:
  assumes "keeps A P" "\<And>s. A (Stat s)" "\<And>s fl. A (Open s fl)" "\<And>l pr fl f off. A (Mmap l pr fl f off)"
    and "subdevice_ctor name force w = Some (r, w')" "P w"
  shows "P w'"
  using assms(5) unfolding subdevice_ctor_def
proof (cases rule: io_bind_cases)
  case (1 e)
  from negotiate_keeps [OF assms(1) assms(2) assms(3) 1(1) assms(6)] show ?thesis .
next
  case (2 x v)
  obtain fh fmt where x: "x = (fh, fmt)" by (cases x)
  have pv: "P v" using negotiate_keeps [OF assms(1) assms(2) assms(3) 2(1) assms(6)] .
  from 2(2) x have "io_bind (request_buffers name fh) (start_streaming name fh) v = Some (r, w')"
    by simp
  then show ?thesis
  proof (cases rule: io_bind_cases)
    case (1 e)
    from request_buffers_keeps [OF assms(1) 1(1) pv] show ?thesis .
  next
    case (2 count v2)
    have pv2: "P v2" using request_buffers_keeps [OF assms(1) 2(1) pv] .
    from start_streaming_keeps [OF assms(1) assms(4) 2(2) pv2] show ?thesis .
  qed
qed

lemma unmap_buffers_keeps:
  assumes "keeps A P" "\<And>a l. A (Munmap a l)"
  shows "unmap_buffers bs w = Some w' \<Longrightarrow> P w \<Longrightarrow> P w'"
proof (induction bs arbitrary: w)
  case Nil
  then show ?case by simp
next
  case (Cons b bs)
  from Cons.prems(1) obtain r w1 where
    s1: "sys (Munmap (start b) (length_b b)) w = Some (r, w1)"
    by (auto split: option.splits)
  have p1: "P w1" using keeps_sys [OF assms(1) assms(2) s1 Cons.prems(2)] .
  let ?w2 = "if ret r < 0 then emit (Stderr ''munmap'') w1 else w1"
  have p2: "P ?w2" using p1 keeps_stderr [OF assms(1) p1] by simp
  from Cons.prems(1) s1 have "unmap_buffers bs ?w2 = Some w'" by simp
  from Cons.IH [OF this p2] show ?case .
qed

lemma subdevice_dtor_keeps:
  assumes "keeps A P" "\<And>a l. A (Munmap a l)" "\<And>f. A (Close f)"
    and "subdevice_dtor sd w = Some w'" "P w"
  shows "P w'"
proof -
  from assms(4) obtain r w1 where
    s1: "xioctl (fd sd) VIDIOC_STREAMOFF (Arg_buf_type V4L2_BUF_TYPE_VIDEO_CAPTURE) w = Some (r, w1)"
    by (auto simp: subdevice_dtor_def split: option.splits)
  have p1: "P w1" using keeps_xioctl [OF assms(1) s1 assms(5)] .
  let ?w1 = "if ret r < 0 then emit (Stderr ''VIDIOC_STREAMOFF'') w1 else w1"
  have p1': "P ?w1" using p1 keeps_stderr [OF assms(1) p1] by simp
  from assms(4) s1 obtain w2 where s2: "unmap_buffers (buffers sd) ?w1 = Some w2"
    by (auto simp: subdevice_dtor_def split: option.splits)
  have p2: "P w2" using unmap_buffers_keeps [OF assms(1) assms(2) s2 p1'] .
  from assms(4) s1 s2 obtain c w3 where s3: "sys (Close (fd sd)) w2 = Some (c, w3)"
    and w': "w' = (if ret c < 0 then emit (Stderr ''close'') w3 else w3)"
    by (auto simp: subdevice_dtor_def split: option.splits)
  have p3: "P w3" using keeps_sys [OF assms(1) assms(3) s3 p2] .
  with w' keeps_stderr [OF assms(1) p3] show ?thesis by simp
qed

lemma poll_keeps:
  assumes "keeps A P" "\<And>n fs s u. A (Select n fs s u)"
  shows "poll sd f w s = Some (r, w') \<Longrightarrow> P w \<Longrightarrow> P w'"
proof (induction "length (replies w)" arbitrary: w rule: less_induct)
  case less
  note p = less.prems(1)
  from p obtain sel w1 where s1: "sys (Select (fd sd + 1) [fd sd] 2 0) w = Some (sel, w1)"
    by (auto simp: poll.simps [of sd f w s] split: option.splits)
  have p1: "P w1" using keeps_sys [OF assms(1) assms(2) s1 less.prems(2)] .
  have l1: "length (replies w1) < length (replies w)"
    using sys_shorter [OF s1] .
  show ?case
  proof (cases "ret sel = - 1 \<or> ret sel = 0")
    case True
    show ?thesis
    proof (cases "ret sel = - 1 \<and> errno w1 = EINTR")
      case True
      with s1 p have "poll sd f w1 s = Some (r, w')"
        by (simp add: poll.simps [of sd f w s])
      from less.hyps [OF l1 this p1] show ?thesis .
    next
      case False
      with \<open>ret sel = - 1 \<or> ret sel = 0\<close> s1 p have "w' = w1"
        by (auto simp: poll.simps [of sd f w s] split: if_splits)
      with p1 show ?thesis by simp
    qed
  next
    case rdy: False
    with p s1 obtain dq w2 where
      s2: "xioctl (fd sd) VIDIOC_DQBUF (Arg_buffer (capture_buffer 0)) w1 = Some (dq, w2)"
      by (auto simp: poll.simps [of sd f w s] split: option.splits)
    have p2: "P w2" using keeps_xioctl [OF assms(1) s2 p1] .
    have l2: "length (replies w2) < length (replies w)"
      using xioctl_shorter [OF s2] l1 by simp
    show ?thesis
    proof (cases "ret dq < 0")
      case True
      show ?thesis
      proof (cases "errno w2 = EAGAIN")
        case True
        with \<open>ret dq < 0\<close> rdy s1 s2 p have "poll sd f w2 s = Some (r, w')"
          by (simp add: poll.simps [of sd f w s])
        from less.hyps [OF l2 this p2] show ?thesis .
      next
        case False
        with \<open>ret dq < 0\<close> rdy s1 s2 p have "w' = w2"
          by (simp add: poll.simps [of sd f w s])
        with p2 show ?thesis by simp
      qed
    next
      case ok: False
      let ?b = "o_buf dq"
      let ?a = "start (buffers sd ! unat (buf_index ?b))"
      let ?n = "unat (buf_bytesused ?b)"
      let ?w3 = "emit (Callback ?a ?n) w2"
      have p3: "P ?w3" using keeps_callback [OF assms(1) p2] .
      show ?thesis
      proof (cases "unat (buf_index ?b) < length (buffers sd)")
        case False
        with ok rdy s1 s2 p have "w' = w2"
          by (simp add: poll.simps [of sd f w s])
        with p2 show ?thesis by simp
      next
        case inb: True
        show ?thesis
        proof (cases "f ?a ?n s")
          case (Inl e)
          with inb ok rdy s1 s2 p have "w' = ?w3"
            by (simp add: poll.simps [of sd f w s] Let_def)
          with p3 show ?thesis by simp
        next
          case (Inr s')
          with inb ok rdy s1 s2 p obtain qb where
            s4: "xioctl (fd sd) VIDIOC_QBUF (Arg_buffer ?b) ?w3 = Some (qb, w')"
            by (auto simp: poll.simps [of sd f w s] Let_def split: option.splits if_splits)
          from keeps_xioctl [OF assms(1) s4 p3] show ?thesis .
        qed
      qed
    qed
  qed
qed


lemma retried_snoc: "retried t \<Longrightarrow> \<not> interrupted_ioctl e \<Longrightarrow> retried (t @ [e])"
  by (induction t rule: retried.induct) auto

lemma retried_append: "retried xs \<Longrightarrow> retried ys \<Longrightarrow> retried (xs @ ys)"
proof (induction xs rule: retried.induct)
  case 1
  then show ?case by simp
next
  case (2 e)
  then show ?case by (cases ys) simp_all
next
  case (3 e e' es)
  then show ?case by simp
qed

lemma retried_ioctls:
  "list_all interrupted ints \<Longrightarrow> \<not> interrupted rp \<Longrightarrow>
   retried (map (Sys (Ioctl fh rq a)) ints @ [Sys (Ioctl fh rq a) rp])"
proof (induction ints)
  case Nil
  then show ?case by simp
next
  case (Cons i ints)
  then show ?case by (cases ints) simp_all
qed

lemma retried_burst:
  "retried t \<Longrightarrow> list_all interrupted ints \<Longrightarrow> \<not> interrupted rp \<Longrightarrow>
   retried (t @ map (Sys (Ioctl fh rq a)) ints @ [Sys (Ioctl fh rq a) rp])"
  by (intro retried_append retried_ioctls)

lemma keeps_retried: "keeps (\<lambda>c. \<not> is_ioctl c) (\<lambda>w. retried (trace w))"
  unfolding keeps_def
proof (intro conjI allI impI)
  fix c w rp w'
  assume "\<not> is_ioctl c" "sys c w = Some (rp, w')" "retried (trace w)"
  moreover from \<open>\<not> is_ioctl c\<close> have "\<not> interrupted_ioctl (Sys c rp)" by (cases c) auto
  ultimately show "retried (trace w')"
    by (auto simp: sys_def retried_snoc split: list.splits)
next
  fix fh rq a w rp w'
  assume "xioctl fh rq a w = Some (rp, w')" "retried (trace w)"
  with xioctl_unfold [of fh rq a w rp w'] show "retried (trace w')"
    by (auto simp: retried_burst)
next
  fix s and w :: world assume "retried (trace w)"
  then show "retried (trace (emit (Stderr s) w))" by (simp add: emit_def retried_snoc)
next
  fix a n and w :: world assume "retried (trace w)"
  then show "retried (trace (emit (Callback a n) w))" by (simp add: emit_def retried_snoc)
qed

lemma released_append [simp]: "released (xs @ ys) = released xs @ released ys"
  by (simp add: released_def)

lemma released_Nil [simp]: "released [] = []"
  by (simp add: released_def)

lemma released_Cons [simp]: "released (e # es) = release_of e @ released es"
  by (simp add: released_def)

lemma released_ioctls [simp]: "released (map (Sys (Ioctl fh rq a)) rs) = []"
  by (induction rs) simp_all

lemma keeps_released: "keeps (\<lambda>c. \<not> is_release c) (\<lambda>w. released (trace w) = R)"
  unfolding keeps_def
proof (intro conjI allI impI)
  fix c w rp w'
  assume "\<not> is_release c" "sys c w = Some (rp, w')" "released (trace w) = R"
  then show "released (trace w') = R"
    by (auto simp: sys_def released_def split: list.splits)
next
  fix fh rq a w rp w'
  assume "xioctl fh rq a w = Some (rp, w')" "released (trace w) = R"
  with xioctl_unfold [of fh rq a w rp w'] show "released (trace w') = R"
    by auto
next
  fix s and w :: world assume "released (trace w) = R"
  then show "released (trace (emit (Stderr s) w)) = R" by (simp add: emit_def released_def)
next
  fix a n and w :: world assume "released (trace w) = R"
  then show "released (trace (emit (Callback a n) w)) = R" by (simp add: emit_def released_def)
qed

lemma subdevice_dtor_releases:
  assumes "subdevice_dtor sd w = Some w'"
  shows "released (trace w') =
         released (trace w) @ map (\<lambda>b. Munmap (start b) (length_b b)) (buffers sd) @ [Close (fd sd)]"
proof -
  have u: "unmap_buffers bs v = Some v' \<Longrightarrow>
      released (trace v') = released (trace v) @ map (\<lambda>b. Munmap (start b) (length_b b)) bs"
    for bs v v'
  proof (induction bs arbitrary: v)
    case Nil
    then show ?case by simp
  next
    case (Cons b bs)
    from Cons.prems obtain r v1 where
      s1: "sys (Munmap (start b) (length_b b)) v = Some (r, v1)"
      and n: "unmap_buffers bs (if ret r < 0 then emit (Stderr ''munmap'') v1 else v1) = Some v'"
      by (auto split: option.splits)
    from s1 have "released (trace v1) = released (trace v) @ [Munmap (start b) (length_b b)]"
      by (auto simp: sys_def released_def split: list.splits)
    then have "released (trace (if ret r < 0 then emit (Stderr ''munmap'') v1 else v1)) =
        released (trace v) @ [Munmap (start b) (length_b b)]"
      by (simp add: emit_def released_def)
    with Cons.IH [OF n] show ?case by simp
  qed
  from assms obtain r w1 where
    s1: "xioctl (fd sd) VIDIOC_STREAMOFF (Arg_buf_type V4L2_BUF_TYPE_VIDEO_CAPTURE) w = Some (r, w1)"
    by (auto simp: subdevice_dtor_def split: option.splits)
  let ?w1 = "if ret r < 0 then emit (Stderr ''VIDIOC_STREAMOFF'') w1 else w1"
  from keeps_xioctl [OF keeps_released s1, of "released (trace w)"]
  have r1: "released (trace ?w1) = released (trace w)"
    by (simp add: emit_def released_def)
  from assms s1 obtain w2 where s2: "unmap_buffers (buffers sd) ?w1 = Some w2"
    by (auto simp: subdevice_dtor_def split: option.splits)
  from assms s1 s2 obtain c w3 where s3: "sys (Close (fd sd)) w2 = Some (c, w3)"
    and w': "w' = (if ret c < 0 then emit (Stderr ''close'') w3 else w3)"
    by (auto simp: subdevice_dtor_def split: option.splits)
  from s3 have "released (trace w3) = released (trace w2) @ [Close (fd sd)]"
    by (auto simp: sys_def released_def split: list.splits)
  with w' have "released (trace w') = released (trace w2) @ [Close (fd sd)]"
    by (simp add: emit_def released_def)
  with u [OF s2] r1 show ?thesis by simp
qed

lemma replicate_2: "replicate 2 x = [x, x]"
  by (simp add: numeral_2_eq_2)

lemma replicate_4: "replicate 4 x = [x, x, x, x]"
  by (simp add: numeral_eq_Suc)

lemma negotiate_demo:
  "\<exists>fmt w1. negotiate ''/dev/video1'' False (scripted (negotiated @ tail)) = Some (Inr (3, fmt), w1) \<and>
     replies w1 = tail"
  by (simp add: negotiated_def ctor_defs demo_defs)

text \<open>
  Claim C9. Every \<^verbatim>\<open>ioctl\<close> of the constructor, of \<^verbatim>\<open>poll\<close> and of the destructor goes
  through \<^verbatim>\<open>xioctl\<close>: in the trace of each of them, an \<^verbatim>\<open>ioctl\<close> that failed with
  \<^verbatim>\<open>EINTR\<close> is followed at once by the same \<^verbatim>\<open>ioctl\<close> again. What \<^verbatim>\<open>xioctl\<close> returns is
  never a failure with \<^verbatim>\<open>EINTR\<close>, and after any number of interrupted attempts it returns
  the first reply that is not one.
\<close>

theorem control_calls_retried:
  assumes "retried (trace w)"
  shows "(subdevice_ctor name force_format w = Some (r1, w1) \<longrightarrow> retried (trace w1)) \<and>
         (poll sd f w s = Some (r2, w2) \<longrightarrow> retried (trace w2)) \<and>
         (subdevice_dtor sd w = Some w3 \<longrightarrow> retried (trace w3)) \<and>
         (xioctl fh rq a w = Some (rp, w4) \<longrightarrow>
            \<not> (ret rp < 0 \<and> errno w4 = EINTR) \<and> retried (trace w4)) \<and>
         (list_all interrupted ints \<and> \<not> interrupted rp' \<and> replies w = ints @ rp' # rest \<longrightarrow>
            xioctl fh rq a w =
              Some (rp', w\<lparr>replies := rest, errno := err rp',
                            trace := trace w @ map (Sys (Ioctl fh rq a)) (ints @ [rp'])\<rparr>))"
proof (intro conjI impI)
  assume "subdevice_ctor name force_format w = Some (r1, w1)"
  from subdevice_ctor_keeps [OF keeps_retried _ _ _ this assms] show "retried (trace w1)"
    by simp
next
  assume "poll sd f w s = Some (r2, w2)"
  from poll_keeps [OF keeps_retried _ this assms] show "retried (trace w2)"
    by simp
next
  assume "subdevice_dtor sd w = Some w3"
  from subdevice_dtor_keeps [OF keeps_retried _ _ this assms] show "retried (trace w3)"
    by simp
next
  assume x: "xioctl fh rq a w = Some (rp, w4)"
  from xioctl_result [OF x] show "\<not> (ret rp < 0 \<and> errno w4 = EINTR)"
    by (simp add: interrupted_def)
  from keeps_xioctl [OF keeps_retried x assms] show "retried (trace w4)" .
next
  assume "list_all interrupted ints \<and> \<not> interrupted rp' \<and> replies w = ints @ rp' # rest"
  then show "xioctl fh rq a w =
              Some (rp', w\<lparr>replies := rest, errno := err rp',
                            trace := trace w @ map (Sys (Ioctl fh rq a)) (ints @ [rp'])\<rparr>)"
    by (intro xioctl_interrupted) simp_all
qed

theorem control_calls_retried_witness:
  "\<exists>w'. subdevice_ctor ''/dev/video1'' False (scripted interrupted_start) =
          Some (Inr \<lparr>dev_name = ''/dev/video1'', fd = 3,
                 buffers = [\<lparr>start = 65536, length_b = 4096\<rparr>,
                            \<lparr>start = 69632, length_b = 4096\<rparr>]\<rparr>, w') \<and>
        retried (trace w') \<and> length (filter interrupted_ioctl (trace w')) = 6"
proof -
  obtain w' where run: "subdevice_ctor ''/dev/video1'' False (scripted interrupted_start) =
          Some (Inr \<lparr>dev_name = ''/dev/video1'', fd = 3,
                 buffers = [\<lparr>start = 65536, length_b = 4096\<rparr>,
                            \<lparr>start = 69632, length_b = 4096\<rparr>]\<rparr>, w')"
    and n: "length (filter interrupted_ioctl (trace w')) = 6"
    by (simp add: interrupted_start_def ctor_defs demo_defs replicate_2 interrupted_def)
  have "retried (trace (scripted interrupted_start))"
    by (simp add: scripted_def)
  from control_calls_retried [OF this, THEN conjunct1, rule_format, OF run]
  have "retried (trace w')" .
  with run n show ?thesis by blast
qed


text \<open>
  Claim C6, as amended. The constructor never unmaps a region and never closes the
  descriptor, whether it returns or throws. In the mapping loop an \<^verbatim>\<open>mmap\<close> that returns
  \<^verbatim>\<open>MAP_FAILED\<close> makes the loop, and with it the constructor, throw \<^verbatim>\<open>mmap\<close> at once,
  with no further system call: the regions mapped so far and the open descriptor stay
  as they are. It is the destructor of a constructed object that unmaps every buffer
  and then closes the descriptor; \<^verbatim>\<open>poll\<close> releases nothing either.
\<close>

theorem start_releases_nothing:
  "(subdevice_ctor name force_format w = Some (r, w') \<longrightarrow>
      released (trace w') = released (trace w)) \<and>
   (i < length bufs \<and> list_all interrupted ints \<and> \<not> interrupted qb \<and> 0 \<le> ret qb \<and>
    o_addr m = MAP_FAILED \<and> replies v = ints @ qb # m # rest \<longrightarrow>
      map_buffers fh bufs i v =
        Some (Inl (Runtime_error ''mmap''),
              v\<lparr>replies := rest, errno := err m,
                trace := trace v @
                  map (Sys (Ioctl fh VIDIOC_QUERYBUF (Arg_buffer (capture_buffer (of_nat i)))))
                      (ints @ [qb]) @
                  [Sys (Mmap (unat (buf_length (o_buf qb))) (PROT_READ OR PROT_WRITE) MAP_SHARED fh
                          (unat (buf_offset (o_buf qb)))) m]\<rparr>)) \<and>
   (subdevice_dtor sd u = Some u' \<longrightarrow>
      released (trace u') =
        released (trace u) @ map (\<lambda>b. Munmap (start b) (length_b b)) (buffers sd) @
        [Close (fd sd)]) \<and>
   (poll sd f x s = Some (r', x') \<longrightarrow> released (trace x') = released (trace x))"
proof (intro conjI impI)
  assume "subdevice_ctor name force_format w = Some (r, w')"
  from subdevice_ctor_keeps [OF keeps_released _ _ _ this, of "released (trace w)"]
  show "released (trace w') = released (trace w)"
    by simp
next
  assume a: "i < length bufs \<and> list_all interrupted ints \<and> \<not> interrupted qb \<and> 0 \<le> ret qb \<and>
    o_addr m = MAP_FAILED \<and> replies v = ints @ qb # m # rest"
  then have "xioctl fh VIDIOC_QUERYBUF (Arg_buffer (capture_buffer (of_nat i))) v =
     Some (qb, v\<lparr>replies := m # rest, errno := err qb,
                 trace := trace v @
                   map (Sys (Ioctl fh VIDIOC_QUERYBUF (Arg_buffer (capture_buffer (of_nat i)))))
                       (ints @ [qb])\<rparr>)"
    by (intro xioctl_interrupted) simp_all
  with a show "map_buffers fh bufs i v =
        Some (Inl (Runtime_error ''mmap''),
              v\<lparr>replies := rest, errno := err m,
                trace := trace v @
                  map (Sys (Ioctl fh VIDIOC_QUERYBUF (Arg_buffer (capture_buffer (of_nat i)))))
                      (ints @ [qb]) @
                  [Sys (Mmap (unat (buf_length (o_buf qb))) (PROT_READ OR PROT_WRITE) MAP_SHARED fh
                          (unat (buf_offset (o_buf qb)))) m]\<rparr>)"
    by (simp add: map_buffers.simps [of fh bufs i v] sys_Cons io_throw_def)
next
  assume "subdevice_dtor sd u = Some u'"
  then show "released (trace u') =
        released (trace u) @ map (\<lambda>b. Munmap (start b) (length_b b)) (buffers sd) @
        [Close (fd sd)]"
    by (rule subdevice_dtor_releases)
next
  assume "poll sd f x s = Some (r', x')"
  from poll_keeps [OF keeps_released _ this, of "released (trace x)"]
  show "released (trace x') = released (trace x)"
    by simp
qed

theorem start_releases_nothing_witness:
  "(\<exists>w'. subdevice_ctor ''/dev/video1'' False (scripted third_mapping_fails) =
          Some (Inl (Runtime_error ''mmap''), w') \<and>
        released (trace w') = []) \<and>
   (\<exists>v'. map_buffers 3 (buffers video0) 1 (scripted [described 4096 4096, at_address MAP_FAILED]) =
          Some (Inl (Runtime_error ''mmap''), v') \<and> replies v' = []) \<and>
   (\<exists>u'. subdevice_dtor video0 (scripted [quiet, failing EINVAL, quiet, quiet]) = Some u' \<and>
        released (trace u') = [Munmap 4096 100, Munmap 8192 100, Close 3])"
proof (intro conjI)
  obtain w' where run: "subdevice_ctor ''/dev/video1'' False (scripted third_mapping_fails) =
          Some (Inl (Runtime_error ''mmap''), w')"
    by (simp add: third_mapping_fails_def negotiated_def two_mapped_def ctor_defs demo_defs
        replicate_4)
  from start_releases_nothing [THEN conjunct1, rule_format, OF run]
  have "released (trace w') = []"
    by (simp add: scripted_def)
  with run show "\<exists>w'. subdevice_ctor ''/dev/video1'' False (scripted third_mapping_fails) =
          Some (Inl (Runtime_error ''mmap''), w') \<and> released (trace w') = []"
    by blast
next
  have "1 < length (buffers video0) \<and> list_all interrupted [] \<and>
        \<not> interrupted (described 4096 4096) \<and> 0 \<le> ret (described 4096 4096) \<and>
        o_addr (at_address MAP_FAILED) = MAP_FAILED \<and>
        replies (scripted [described 4096 4096, at_address MAP_FAILED]) =
          [] @ described 4096 4096 # at_address MAP_FAILED # []"
    by (simp add: video0_def interrupted_def described_def at_address_def quiet_def scripted_def)
  from start_releases_nothing [THEN conjunct2, THEN conjunct1, rule_format, OF this, of 3]
  show "\<exists>v'. map_buffers 3 (buffers video0) 1
            (scripted [described 4096 4096, at_address MAP_FAILED]) =
          Some (Inl (Runtime_error ''mmap''), v') \<and> replies v' = []"
    by simp
next
  obtain u' where run: "subdevice_dtor video0 (scripted [quiet, failing EINVAL, quiet, quiet]) = Some u'"
    by (simp add: subdevice_dtor_def xioctl.simps demo_defs)
  from start_releases_nothing [THEN conjunct2, THEN conjunct2, THEN conjunct1, rule_format, OF run]
  have "released (trace u') = [Munmap 4096 100, Munmap 8192 100, Close 3]"
    by (simp add: scripted_def video0_def)
  with run show "\<exists>u'. subdevice_dtor video0 (scripted [quiet, failing EINVAL, quiet, quiet]) = Some u' \<and>
        released (trace u') = [Munmap 4096 100, Munmap 8192 100, Close 3]"
    by blast
qed

text \<open>
  Claim C6 as stated fails: when the third of four mappings fails, the start throws
  with two regions mapped and the descriptor open, and has released nothing.
\<close>

theorem failed_start_keeps_mappings:
  "\<exists>w'. subdevice_ctor ''/dev/video1'' False (scripted third_mapping_fails) =
          Some (Inl (Runtime_error ''mmap''), w') \<and>
        mappings (trace w') = [(65536, 4096), (69632, 4096)] \<and>
        released (trace w') = []"
  by (simp add: third_mapping_fails_def negotiated_def two_mapped_def ctor_defs demo_defs
      replicate_4 mappings_def released_def)

text \<open>
  Claim C4. The constructor asks \<^verbatim>\<open>VIDIOC_REQBUFS\<close> for 4 buffers. When the request
  succeeds (after the retries of \<^verbatim>\<open>xioctl\<close>), a granted count below 2 makes the
  constructor throw \<^verbatim>\<open>Insufficient buffer memory on\<close> the device, and any other count,
  2 included, passes the test: the constructor goes on to map, queue and start that
  many buffers.
\<close>

theorem start_buffer_count:
  assumes "negotiate name force_format w = Some (Inr (fh, fmt), w1)"
    and "replies w1 = ints @ req # rest" "list_all interrupted ints" "\<not> interrupted req"
    and "0 \<le> ret req"
  shows "subdevice_ctor name force_format w =
     (let w2 = w1\<lparr>replies := rest, errno := err req,
                 trace := trace w1 @
                   map (Sys (Ioctl fh VIDIOC_REQBUFS
                          (Arg_requestbuffers
                             \<lparr>req_count = 4, req_type = V4L2_BUF_TYPE_VIDEO_CAPTURE,
                              req_memory = V4L2_MEMORY_MMAP\<rparr>)))
                       (ints @ [req])\<rparr>
      in if o_count req < 2 then
           Some (Inl (Runtime_error (''Insufficient buffer memory on '' @ name)), w2)
         else start_streaming name fh (o_count req) w2)"
proof -
  have "xioctl fh VIDIOC_REQBUFS (Arg_requestbuffers four_buffers) w1 =
     Some (req, w1\<lparr>replies := rest, errno := err req,
                 trace := trace w1 @
                   map (Sys (Ioctl fh VIDIOC_REQBUFS (Arg_requestbuffers four_buffers)))
                       (ints @ [req])\<rparr>)"
    using assms(3,4,2) by (rule xioctl_interrupted)
  with assms(1,5) show ?thesis
    by (simp add: subdevice_ctor_def io_bind_def request_buffers_def io_throw_def io_return_def
        four_buffers_def Let_def)
qed


theorem start_buffer_count_witness:
  "(\<exists>w'. subdevice_ctor ''/dev/video1'' False (scripted (negotiated @ [granted 1])) =
      Some (Inl (Runtime_error ''Insufficient buffer memory on /dev/video1''), w')) \<and>
   (\<exists>w'. subdevice_ctor ''/dev/video1'' False
            (scripted (negotiated @ granted 2 # two_mapped @ [quiet, quiet, quiet])) =
      Some (Inr \<lparr>dev_name = ''/dev/video1'', fd = 3,
                 buffers = [\<lparr>start = 65536, length_b = 4096\<rparr>,
                            \<lparr>start = 69632, length_b = 4096\<rparr>]\<rparr>, w'))"
proof
  from negotiate_demo [of "[granted 1]"] obtain fmt w1 where
    n: "negotiate ''/dev/video1'' False (scripted (negotiated @ [granted 1])) = Some (Inr (3, fmt), w1)"
    and r: "replies w1 = [] @ granted 1 # []"
    by auto
  from start_buffer_count [OF n r]
  show "\<exists>w'. subdevice_ctor ''/dev/video1'' False (scripted (negotiated @ [granted 1])) =
      Some (Inl (Runtime_error ''Insufficient buffer memory on /dev/video1''), w')"
    by (simp add: interrupted_def granted_def quiet_def Let_def)
next
  let ?tail = "two_mapped @ [quiet, quiet, quiet]"
  let ?sd = "\<lparr>dev_name = ''/dev/video1'', fd = 3,
                 buffers = [\<lparr>start = 65536, length_b = 4096\<rparr>,
                            \<lparr>start = 69632, length_b = 4096\<rparr>]\<rparr>"
  from negotiate_demo [of "granted 2 # ?tail"] obtain fmt w1 where
    n: "negotiate ''/dev/video1'' False (scripted (negotiated @ granted 2 # ?tail)) = Some (Inr (3, fmt), w1)"
    and r: "replies w1 = [] @ granted 2 # ?tail"
    by auto
  let ?w2 = "w1\<lparr>replies := ?tail, errno := err (granted 2),
                 trace := trace w1 @
                   map (Sys (Ioctl 3 VIDIOC_REQBUFS
                          (Arg_requestbuffers
                             \<lparr>req_count = 4, req_type = V4L2_BUF_TYPE_VIDEO_CAPTURE,
                              req_memory = V4L2_MEMORY_MMAP\<rparr>)))
                       ([] @ [granted 2])\<rparr>"
  have "subdevice_ctor ''/dev/video1'' False (scripted (negotiated @ granted 2 # ?tail)) =
        start_streaming ''/dev/video1'' 3 (o_count (granted 2)) ?w2"
    using start_buffer_count [OF n r]
    by (simp add: interrupted_def granted_def quiet_def Let_def)
  moreover have "\<exists>w'. start_streaming ''/dev/video1'' 3 (o_count (granted 2)) ?w2 = Some (Inr ?sd, w')"
    by (simp add: two_mapped_def start_streaming_def ctor_defs demo_defs replicate_2)
  ultimately show "\<exists>w'. subdevice_ctor ''/dev/video1'' False (scripted (negotiated @ granted 2 # ?tail)) =
      Some (Inr ?sd, w')"
    by simp
qed

end
